theory Spec2Isabelle
  imports Complex_Main
begin

unbundle bit_operations_syntax

section \<open>Python values used by main.py\<close>

text \<open>
  A Python \<open>str\<close> is a sequence of Unicode code points, and \<open>len\<close>, \<open>strip\<close> and the
  \<open>re\<close> module work on code points. A character is therefore modelled as its code point
  (a \<open>nat\<close>) and a string as a list of them; \<open>ascii\<close> embeds an ASCII literal.
\<close>

type_synonym pystr = "nat list"

definition ascii :: "string \<Rightarrow> pystr" where
  "ascii s = map of_char s"

text \<open>
  \<open>str.isspace\<close> for one character, which is also what \<open>\s\<close> matches in a \<open>str\<close>
  pattern: the characters that CPython's Unicode database classifies as whitespace.
\<close>

definition py_isspace :: "nat \<Rightarrow> bool" where
  "py_isspace c \<longleftrightarrow>
     (9 \<le> c \<and> c \<le> 13) \<or> (28 \<le> c \<and> c \<le> 32) \<or> c = 133 \<or> c = 160 \<or> c = 5760
     \<or> (8192 \<le> c \<and> c \<le> 8202) \<or> c = 8232 \<or> c = 8233 \<or> c = 8239 \<or> c = 8287
     \<or> c = 12288"

definition lstrip :: "pystr \<Rightarrow> pystr" where
  "lstrip s = dropWhile py_isspace s"

definition rstrip :: "pystr \<Rightarrow> pystr" where
  "rstrip s = rev (dropWhile py_isspace (rev s))"

text \<open>\<open>s.strip()\<close>\<close>

definition strip :: "pystr \<Rightarrow> pystr" where
  "strip s = rstrip (lstrip s)"

text \<open>\<open>s.endswith(t)\<close> and \<open>s.startswith(t)\<close>\<close>

definition endswith :: "pystr \<Rightarrow> pystr \<Rightarrow> bool" where
  "endswith s t \<longleftrightarrow> length t \<le> length s \<and> drop (length s - length t) s = t"

definition startswith :: "pystr \<Rightarrow> pystr \<Rightarrow> bool" where
  "startswith s t \<longleftrightarrow> take (length t) s = t"

text \<open>\<open>str(n)\<close> for a natural number, as the f-string of the page marker prints it.\<close>

fun str_nat :: "nat \<Rightarrow> pystr" where
  "str_nat n = (if n < 10 then [48 + n] else str_nat (n div 10) @ [48 + n mod 10])"

declare str_nat.simps [simp del]

text \<open>
  \<open>round(x)\<close> with one argument rounds to the nearest integer and a tie to the even
  neighbour. A float is a rational number, so the sizes and coordinates that PyMuPDF
  reports are modelled as \<open>rat\<close>.
\<close>

definition py_round :: "rat \<Rightarrow> int" where
  "py_round x =
     (let f = \<lfloor>x\<rfloor>; d = x - of_int f
      in if d < 1 / 2 then f
         else if 1 / 2 < d then f + 1
         else if even f then f else f + 1)"

text \<open>
  A Python \<open>float\<close> is an IEEE 754 double. The result of an operation on doubles is the
  exact result rounded to 53 significant bits, to the nearest such number and a tie to
  the one with the even last bit. \<open>floor_log2 x\<close> is the exponent of a positive \<open>x\<close>:
  the integer \<open>e\<close> with \<open>2 ^ e \<le> x < 2 ^ (e + 1)\<close>. The range of the exponent is
  not bounded here: a difference of two doubles that is too small for a normal double is
  a double itself, and one too large for a double compares with a threshold as infinity
  does.
\<close>

fun nat_log2 :: "nat \<Rightarrow> nat" where
  "nat_log2 n = (if n < 2 then 0 else Suc (nat_log2 (n div 2)))"

declare nat_log2.simps [simp del]

definition floor_log2 :: "rat \<Rightarrow> int" where
  "floor_log2 x =
     (case quotient_of x of (p, q) \<Rightarrow>
        (let d = int (nat_log2 (nat p)) - int (nat_log2 (nat q))
         in if 2 powi d \<le> x then d else d - 1))"

definition round_double :: "rat \<Rightarrow> rat" where
  "round_double x =
     (if x = 0 then 0
      else (let u = 2 powi (floor_log2 \<bar>x\<bar> - 52) in of_int (py_round (x / u)) * u))"

text \<open>The literal \<open>0.7\<close>, and \<open>body_size * 0.7\<close> of line 177: the integer becomes a double.\<close>

definition double_0_7 :: rat where
  "double_0_7 = round_double (7 / 10)"

definition gap_threshold :: "int \<Rightarrow> rat" where
  "gap_threshold body_size = round_double (round_double (of_int body_size) * double_0_7)"

datatype error = KeyError | IndexError | AttributeError

section \<open>The page dictionary of PyMuPDF\<close>

text \<open>
  \<open>page.get_text("dict")["blocks"]\<close> is a list of block dictionaries; a text block has
  \<open>type\<close> 0, a bounding box and \<open>lines\<close>, a line has \<open>spans\<close>, a span has \<open>size\<close>,
  \<open>flags\<close> and \<open>text\<close>. The source reads the keys both with \<open>d[k]\<close> (KeyError when the
  key is absent) and with \<open>d.get(k, default)\<close>, so every key is optional in the model.
\<close>

record span =
  span_text :: "pystr option"
  span_size :: "rat option"
  span_flags :: "int option"

record line =
  spans :: "span list option"

record block =
  btype :: "int option"
  lines :: "line list option"
  bbox :: "(rat \<times> rat \<times> rat \<times> rat) option"

text \<open>
  The two calls of \<open>page.get_text\<close>: the first by \<open>determine_font_styles\<close>, the second
  (with \<open>sort=True\<close>) by \<open>convert_pdf_to_markdown\<close>. \<open>None\<close> stands for a call that
  raised. The handlers of lines 31 and 126 name \<open>fitz.Error\<close>, which PyMuPDF does not
  define: when the call raises, the tuple of the handler is evaluated first and raises
  AttributeError, which nothing catches.
\<close>

record page =
  text_blocks :: "block list option"
  sorted_blocks :: "block list option"

section \<open>determine_font_styles\<close>

text \<open>\<open>(flags & 2**4) > 0\<close>\<close>

definition is_bold :: "int \<Rightarrow> bool" where
  "is_bold f \<longleftrightarrow> 0 < (f AND 2 ^ 4)"

text \<open>
  The body of the innermost loop of lines 42 to 46 reads \<open>span['size']\<close>,
  \<open>span['flags']\<close> and \<open>span['text']\<close>, in this order, each with a subscript.
  The result is the rounded size, the bold flag and the text.
\<close>

definition read_span :: "span \<Rightarrow> error + (int \<times> bool \<times> pystr)" where
  "read_span s =
     (case span_size s of None \<Rightarrow> Inl KeyError
      | Some z \<Rightarrow>
        (case span_flags s of None \<Rightarrow> Inl KeyError
         | Some f \<Rightarrow>
           (case span_text s of None \<Rightarrow> Inl KeyError
            | Some t \<Rightarrow> Inr (py_round z, is_bold f, t))))"

text \<open>A \<open>for\<close> loop whose body may raise: the first exception ends the loop.\<close>

fun collect :: "('a \<Rightarrow> error + 'b list) \<Rightarrow> 'a list \<Rightarrow> error + 'b list" where
  "collect f [] = Inr []"
| "collect f (x # xs) =
     (case f x of Inl e \<Rightarrow> Inl e
      | Inr ys \<Rightarrow> (case collect f xs of Inl e \<Rightarrow> Inl e | Inr zs \<Rightarrow> Inr (ys @ zs)))"

definition line_spans :: "line \<Rightarrow> error + (int \<times> bool \<times> pystr) list" where
  "line_spans l =
     (case spans l of None \<Rightarrow> Inl KeyError
      | Some ss \<Rightarrow> collect (\<lambda>s. case read_span s of Inl e \<Rightarrow> Inl e | Inr r \<Rightarrow> Inr [r]) ss)"

definition block_spans :: "block \<Rightarrow> error + (int \<times> bool \<times> pystr) list" where
  "block_spans b =
     (case btype b of None \<Rightarrow> Inl KeyError
      | Some t \<Rightarrow>
        if t = 0 then
          (case lines b of None \<Rightarrow> Inl KeyError | Some ls \<Rightarrow> collect line_spans ls)
        else Inr [])"

text \<open>
  The spans that the loops of lines 39 to 46 and 53 to 58 visit, in the order of the visit.
  Both loops walk the same list in the same way; the second reads a subset of the keys
  the first has read.
\<close>

definition page_spans :: "block list \<Rightarrow> error + (int \<times> bool \<times> pystr) list" where
  "page_spans bs = collect block_spans bs"

text \<open>
  \<open>Counter\<close>: a dictionary in insertion order. \<open>c[k] += n\<close> creates the key when it is
  absent, also when \<open>n\<close> is 0.
\<close>

fun counter_add :: "'k \<Rightarrow> nat \<Rightarrow> ('k \<times> nat) list \<Rightarrow> ('k \<times> nat) list" where
  "counter_add k n [] = [(k, n)]"
| "counter_add k n ((k', m) # c) =
     (if k = k' then (k', m + n) # c else (k', m) # counter_add k n c)"

text \<open>
  \<open>c.most_common(1)\<close> is \<open>heapq.nlargest(1, c.items(), key=itemgetter(1))\<close>, which is
  \<open>max\<close> over the items in insertion order: the first item among those of the largest count.
\<close>

fun max_item :: "('k \<times> nat) \<Rightarrow> ('k \<times> nat) list \<Rightarrow> ('k \<times> nat)" where
  "max_item best [] = best"
| "max_item best (kv # c) = max_item (if snd best < snd kv then kv else best) c"

definition most_common1 :: "('k \<times> nat) list \<Rightarrow> ('k \<times> nat) list" where
  "most_common1 c = (case c of [] \<Rightarrow> [] | kv # c' \<Rightarrow> [max_item kv c'])"

text \<open>Line 46 of the first loop, kept for the record: the table \<open>styles\<close> is never read.\<close>

definition styles :: "(int \<times> bool \<times> pystr) list \<Rightarrow> ((int \<times> bool) \<times> nat) list" where
  "styles sp = fold (\<lambda>(z, b, t). counter_add (z, b) (length (strip t))) sp []"

definition all_sizes :: "(int \<times> bool \<times> pystr) list \<Rightarrow> int list" where
  "all_sizes sp = map fst sp"

text \<open>Lines 52 to 58: the sizes weighted by the length of the stripped text.\<close>

definition size_counts :: "(int \<times> bool \<times> pystr) list \<Rightarrow> (int \<times> nat) list" where
  "size_counts sp = fold (\<lambda>(z, b, t). counter_add z (length (strip t))) sp []"

text \<open>
  \<open>statistics.mode\<close> of a non-empty list: the first of the most frequent values.
\<close>

definition mode :: "int list \<Rightarrow> int" where
  "mode xs = fst (hd (most_common1 (fold (\<lambda>x. counter_add x 1) xs [])))"

text \<open>Lines 64 to 67.\<close>

definition select_body_size :: "(int \<times> nat) list \<Rightarrow> int list \<Rightarrow> int" where
  "select_body_size sc sizes =
     (let body_size = (if sc \<noteq> [] then Some (fst (hd (most_common1 sc))) else None)
      in case body_size of
           Some b \<Rightarrow> b
         | None \<Rightarrow> if sizes \<noteq> [] then mode sizes else 10)"

text \<open>
  Lines 71 to 74: \<open>sorted\<close> with \<open>reverse=True\<close> of pairwise distinct integers.
\<close>

definition heading_candidates :: "int list \<Rightarrow> int \<Rightarrow> int list" where
  "heading_candidates sizes body_size =
     rev (sort (filter (\<lambda>s. body_size + 1 < s) (remdups sizes)))"

text \<open>
  Lines 77 to 84. The dictionary \<open>heading_levels\<close> is kept in insertion order; its keys
  are pairwise distinct, so the order of the updates does not matter for a lookup.
\<close>

fun assign_levels :: "nat \<Rightarrow> int list \<Rightarrow> (int \<times> nat) list" where
  "assign_levels level [] = []"
| "assign_levels level (s # cands) =
     (if level \<le> 3 then (s, level) # assign_levels (level + 1) cands else [])"

definition determine_font_styles ::
  "page \<Rightarrow> error + (int option \<times> (int \<times> nat) list)" where
  "determine_font_styles p =
     (case text_blocks p of
        None \<Rightarrow> Inl AttributeError
      | Some bs \<Rightarrow>
        if bs = [] then Inr (None, [])
        else
          (case page_spans bs of
             Inl e \<Rightarrow> Inl e
           | Inr sp \<Rightarrow>
             if all_sizes sp = [] then Inr (None, [])
             else if size_counts sp = [] then Inr (None, [])
             else
               (let body_size = select_body_size (size_counts sp) (all_sizes sp)
                in Inr (Some body_size,
                        assign_levels 1 (heading_candidates (all_sizes sp) body_size)))))"

section \<open>is_list_item\<close>

text \<open>
  \<open>re.match(r"^\s*([\*\-\+\<bullet>]|\d+\.|[a-zA-Z]\.)\s+", text)\<close>, read as a truth value.
  The pattern is anchored at the start and the rest of the text is free, so there is a
  match exactly when some number of leading whitespace characters is followed by a
  marker and one whitespace character. \<open>\d\<close> matches the decimal digits of the Unicode
  database, which is not part of the source: the predicate \<open>dec\<close> stands for it.
\<close>

definition is_bullet :: "nat \<Rightarrow> bool" where
  "is_bullet c \<longleftrightarrow> c = 42 \<or> c = 45 \<or> c = 43 \<or> c = 8226"

definition is_ascii_letter :: "nat \<Rightarrow> bool" where
  "is_ascii_letter c \<longleftrightarrow> (97 \<le> c \<and> c \<le> 122) \<or> (65 \<le> c \<and> c \<le> 90)"

definition ascii_digit :: "nat \<Rightarrow> bool" where
  "ascii_digit c \<longleftrightarrow> 48 \<le> c \<and> c \<le> 57"

text \<open>\<open>\.\s\<close> at the start of the text\<close>

definition dot_space :: "pystr \<Rightarrow> bool" where
  "dot_space r = (case r of c # d # _ \<Rightarrow> c = 46 \<and> py_isspace d | _ \<Rightarrow> False)"

text \<open>\<open>([\*\-\+\<bullet>]|\d+\.|[a-zA-Z]\.)\s\<close> at the start of the text\<close>

definition marker_at :: "(nat \<Rightarrow> bool) \<Rightarrow> pystr \<Rightarrow> bool" where
  "marker_at dec r \<longleftrightarrow>
     (case r of c # d # _ \<Rightarrow> is_bullet c \<and> py_isspace d | _ \<Rightarrow> False)
     \<or> list_ex (\<lambda>j. dot_space (drop j r)) [1..<Suc (length (takeWhile dec r))]
     \<or> (case r of c # r' \<Rightarrow> is_ascii_letter c \<and> dot_space r' | _ \<Rightarrow> False)"

definition is_list_item :: "(nat \<Rightarrow> bool) \<Rightarrow> pystr \<Rightarrow> bool" where
  "is_list_item dec text \<longleftrightarrow>
     list_ex (\<lambda>k. marker_at dec (drop k text)) [0..<Suc (length (takeWhile py_isspace text))]"

section \<open>convert_pdf_to_markdown\<close>

text \<open>
  The variables of the conversion loop that outlive one block: the list of fragments,
  the bottom edge of the last text block and the paragraph under construction.
\<close>

record state =
  markdown_output :: "pystr list"
  last_block_bottom :: rat
  current_paragraph :: pystr

text \<open>An entry of \<open>line_text_parts\<close> (lines 151 to 155).\<close>

record part =
  part_text :: pystr
  part_size :: int
  part_bold :: bool

text \<open>Lines 147 to 155: the keys are read with \<open>get\<close> and a default.\<close>

definition span_part :: "int \<Rightarrow> span \<Rightarrow> part" where
  "span_part body_size s =
     \<lparr>part_text = (case span_text s of None \<Rightarrow> [] | Some t \<Rightarrow> t),
      part_size = (case span_size s of None \<Rightarrow> body_size | Some z \<Rightarrow> py_round z),
      part_bold = is_bold (case span_flags s of None \<Rightarrow> 0 | Some f \<Rightarrow> f)\<rparr>"

text \<open>
  \<open>round(body_size)\<close> of line 148 is \<open>body_size\<close>, an integer. Lines 146 to 157, the
  body of the loop over the spans of a line: the state is \<open>line_text_parts\<close>,
  \<open>total_size\<close> and \<open>span_count\<close>.
\<close>

definition scan_span :: "int \<Rightarrow> span \<Rightarrow> part list \<times> int \<times> nat \<Rightarrow> part list \<times> int \<times> nat" where
  "scan_span body_size s acc =
     (case acc of (line_text_parts, total_size, span_count) \<Rightarrow>
        (let p = span_part body_size s
         in (line_text_parts @ [p],
             total_size + part_size p * int (length (part_text p)),
             span_count + length (part_text p))))"

text \<open>
  Lines 144 to 160, the body of the loop over the lines of a block: the state is
  \<open>block_text_lines\<close>, \<open>total_size\<close> and \<open>span_count\<close>.
\<close>

definition scan_line ::
  "int \<Rightarrow> line \<Rightarrow> part list list \<times> int \<times> nat \<Rightarrow> part list list \<times> int \<times> nat" where
  "scan_line body_size l acc =
     (case acc of (block_text_lines, total_size, span_count) \<Rightarrow>
        (case fold (scan_span body_size) (case spans l of None \<Rightarrow> [] | Some ss \<Rightarrow> ss)
                ([], total_size, span_count) of
           (line_text_parts, total_size', span_count') \<Rightarrow>
             (block_text_lines @ [line_text_parts], total_size', span_count')))"

text \<open>Lines 138 to 160.\<close>

definition scan_block :: "int \<Rightarrow> block \<Rightarrow> part list list \<times> int \<times> nat" where
  "scan_block body_size b =
     fold (scan_line body_size) (case lines b of None \<Rightarrow> [] | Some ls \<Rightarrow> ls) ([], 0, 0)"

text \<open>
  Lines 162 to 166. The quotient of line 163 is a float in the source and exact here.
\<close>

definition block_avg_size :: "int \<Rightarrow> int \<Rightarrow> nat \<Rightarrow> int" where
  "block_avg_size body_size total_size span_count =
     (if 0 < span_count
      then py_round (of_int total_size / of_int (int span_count))
      else body_size)"

text \<open>\<open>block.get('bbox', [0, 0, 0, 0])[1]\<close> and \<open>[3]\<close>\<close>

definition block_top :: "block \<Rightarrow> rat" where
  "block_top b = (case bbox b of None \<Rightarrow> 0 | Some (x0, y0, x1, y1) \<Rightarrow> y0)"

definition block_bottom :: "block \<Rightarrow> rat" where
  "block_bottom b = (case bbox b of None \<Rightarrow> 0 | Some (x0, y0, x1, y1) \<Rightarrow> y1)"

text \<open>
  \<open>markdown_output.append(current_paragraph.strip() + "\n"); current_paragraph = ""\<close>
  under \<open>if current_paragraph\<close>: lines 178 to 180, 193 to 195, 219 to 221, 236 to 238.
\<close>

definition flush :: "state \<Rightarrow> state" where
  "flush st =
     (if current_paragraph st \<noteq> []
      then st\<lparr>markdown_output := markdown_output st @ [strip (current_paragraph st) @ [10]],
              current_paragraph := []\<rparr>
      else st)"

text \<open>
  Lines 174 to 181. The difference of line 175 and the product \<open>body_size * 0.7\<close> are
  doubles. \<open>markdown_output[-1]\<close> raises IndexError on the empty list, and \<open>and\<close>
  evaluates it only when the gap is large.
\<close>

definition gap_check :: "nat \<Rightarrow> nat \<Rightarrow> int \<Rightarrow> block \<Rightarrow> state \<Rightarrow> error + state" where
  "gap_check page_num i body_size b st =
     (if 0 < page_num \<or> 0 < i then
        (let vertical_gap = round_double (block_top b - last_block_bottom st)
         in if gap_threshold body_size < vertical_gap then
              (if markdown_output st = [] then Inl IndexError
               else if last (markdown_output st) \<noteq> []
                 then Inr ((flush st)\<lparr>markdown_output := markdown_output (flush st) @ [[]]\<rparr>)
                 else Inr st)
            else Inr st)
      else Inr st)"

text \<open>Line 188 to 190: the text of all spans of the block, stripped.\<close>

definition heading_text :: "part list list \<Rightarrow> pystr" where
  "heading_text ls = strip (concat (map part_text (concat ls)))"

text \<open>
  Lines 184 to 197. The result carries \<open>is_heading\<close>.
\<close>

definition heading_step :: "(int \<times> nat) list \<Rightarrow> int \<Rightarrow> part list list \<Rightarrow> state \<Rightarrow> bool \<times> state" where
  "heading_step heading_levels avg ls st =
     (case map_of heading_levels avg of
        None \<Rightarrow> (False, st)
      | Some level \<Rightarrow>
        if heading_text ls \<noteq> [] then
          (True, (flush st)\<lparr>markdown_output :=
                    markdown_output (flush st) @ [replicate level 35 @ [32] @ heading_text ls @ [10]]\<rparr>)
        else (False, st))"

text \<open>Lines 206 to 215: one span added to \<open>processed_line\<close>.\<close>

definition add_span :: "part \<Rightarrow> pystr \<Rightarrow> pystr" where
  "add_span p processed_line =
     (if part_bold p then
        (if \<not> endswith processed_line [42, 42] \<and> \<not> startswith (part_text p) [42, 42]
         then processed_line @ [42, 42] @ part_text p @ [42, 42]
         else processed_line @ part_text p)
      else processed_line @ part_text p)"

definition processed_line :: "part list \<Rightarrow> pystr" where
  "processed_line ps = fold add_span ps []"

definition line_text_raw :: "part list \<Rightarrow> pystr" where
  "line_text_raw ps = concat (map part_text ps)"

text \<open>Lines 202 to 228: one line of a block that is not a heading.\<close>

definition process_line :: "(nat \<Rightarrow> bool) \<Rightarrow> part list \<Rightarrow> state \<Rightarrow> state" where
  "process_line dec ps st =
     (if is_list_item dec (line_text_raw ps) then
        (flush st)\<lparr>markdown_output :=
           markdown_output (flush st) @ [strip (processed_line ps) @ [10]]\<rparr>
      else if strip (line_text_raw ps) \<noteq> [] then
        (let cp = (if current_paragraph st \<noteq> [] \<and> \<not> endswith (current_paragraph st) [10]
                   then current_paragraph st @ [32] else current_paragraph st)
         in st\<lparr>current_paragraph := cp @ strip (processed_line ps)\<rparr>)
      else st)"

definition process_lines :: "(nat \<Rightarrow> bool) \<Rightarrow> part list list \<Rightarrow> state \<Rightarrow> state" where
  "process_lines dec ls st = fold (process_line dec) ls st"

text \<open>Lines 135 to 233: the body of the loop over the blocks of a page.\<close>

definition process_block ::
  "(nat \<Rightarrow> bool) \<Rightarrow> nat \<Rightarrow> int \<Rightarrow> (int \<times> nat) list \<Rightarrow> nat \<Rightarrow> block \<Rightarrow> state \<Rightarrow> error + state" where
  "process_block dec page_num body_size heading_levels i b st =
     (if btype b \<noteq> Some 0 then Inr st
      else
        (case scan_block body_size b of (ls, total_size, span_count) \<Rightarrow>
           (let avg = block_avg_size body_size total_size span_count
            in case gap_check page_num i body_size b st of
                 Inl e \<Rightarrow> Inl e
               | Inr st1 \<Rightarrow>
                 (case heading_step heading_levels avg ls st1 of (is_heading, st2) \<Rightarrow>
                    (let st3 = (if \<not> is_heading then process_lines dec ls st2 else st2)
                     in Inr (st3\<lparr>last_block_bottom := block_bottom b\<rparr>))))))"

text \<open>\<open>for i, block in enumerate(blocks)\<close>, from index \<open>i\<close> on.\<close>

fun process_blocks ::
  "(nat \<Rightarrow> bool) \<Rightarrow> nat \<Rightarrow> int \<Rightarrow> (int \<times> nat) list \<Rightarrow> nat \<Rightarrow> block list \<Rightarrow> state \<Rightarrow> error + state" where
  "process_blocks dec page_num body_size heading_levels i [] st = Inr st"
| "process_blocks dec page_num body_size heading_levels i (b # bs) st =
     (case process_block dec page_num body_size heading_levels i b st of
        Inl e \<Rightarrow> Inl e
      | Inr st' \<Rightarrow> process_blocks dec page_num body_size heading_levels (Suc i) bs st')"

text \<open>\<open>f"\n<!-- Page {page_num + 1} -->\n"\<close>\<close>

definition page_marker :: "nat \<Rightarrow> pystr" where
  "page_marker page_num = [10] @ ascii ''<!-- Page '' @ str_nat (page_num + 1) @ ascii '' -->'' @ [10]"

text \<open>
  Lines 112 to 238: the body of the loop over the pages. An exception that
  \<open>determine_font_styles\<close> raises is caught nowhere and ends the conversion.
\<close>

definition process_page :: "(nat \<Rightarrow> bool) \<Rightarrow> nat \<Rightarrow> page \<Rightarrow> state \<Rightarrow> error + state" where
  "process_page dec page_num p st =
     (case determine_font_styles p of
        Inl e \<Rightarrow> Inl e
      | Inr (None, heading_levels) \<Rightarrow> Inr st
      | Inr (Some body_size, heading_levels) \<Rightarrow>
        (case sorted_blocks p of
           None \<Rightarrow> Inl AttributeError
         | Some blocks \<Rightarrow>
           (case process_blocks dec page_num body_size heading_levels 0 blocks
                   (st\<lparr>markdown_output := markdown_output st @ [page_marker page_num],
                       current_paragraph := []\<rparr>) of
              Inl e \<Rightarrow> Inl e
            | Inr st' \<Rightarrow> Inr (flush st'))))"

text \<open>\<open>for page_num in range(len(doc))\<close>, from page \<open>page_num\<close> on.\<close>

fun process_pages :: "(nat \<Rightarrow> bool) \<Rightarrow> nat \<Rightarrow> page list \<Rightarrow> state \<Rightarrow> error + state" where
  "process_pages dec page_num [] st = Inr st"
| "process_pages dec page_num (p # ps) st =
     (case process_page dec page_num p st of
        Inl e \<Rightarrow> Inl e
      | Inr st' \<Rightarrow> process_pages dec (Suc page_num) ps st')"

text \<open>
  Lines 108 to 238: the fragments of a document. \<open>current_paragraph\<close> is unbound in the
  source until the first page that is not skipped sets it to the empty string.
\<close>

definition initial_state :: state where
  "initial_state = \<lparr>markdown_output = [], last_block_bottom = 0, current_paragraph = []\<rparr>"

definition convert_fragments :: "(nat \<Rightarrow> bool) \<Rightarrow> page list \<Rightarrow> error + pystr list" where
  "convert_fragments dec doc =
     (case process_pages dec 0 doc initial_state of
        Inl e \<Rightarrow> Inl e
      | Inr st \<Rightarrow> Inr (markdown_output st))"

section \<open>Notions of the specification\<close>

text \<open>The count of a key in a counter; an absent key counts 0.\<close>

definition count_of :: "('k \<times> nat) list \<Rightarrow> 'k \<Rightarrow> nat" where
  "count_of c k = (case map_of c k of None \<Rightarrow> 0 | Some n \<Rightarrow> n)"

text \<open>A counter filled from a list, one addition for each element.\<close>

definition tally :: "('a \<Rightarrow> 'k) \<Rightarrow> ('a \<Rightarrow> nat) \<Rightarrow> 'a list \<Rightarrow> ('k \<times> nat) list \<Rightarrow> ('k \<times> nat) list" where
  "tally key w xs c = fold (\<lambda>x. counter_add (key x) (w x)) xs c"

text \<open>
  The character weight of a size: the number of characters, after stripping, of the
  spans of that rounded size.
\<close>

definition char_weight :: "(int \<times> bool \<times> pystr) list \<Rightarrow> int \<Rightarrow> nat" where
  "char_weight sp s = (\<Sum>(z, b, t)\<leftarrow>filter (\<lambda>(z, b, t). z = s) sp. length (strip t))"

text \<open>The sizes on a page that are more than a point above the body size.\<close>

definition larger_sizes :: "int list \<Rightarrow> int \<Rightarrow> int set" where
  "larger_sizes sizes body_size = {s \<in> set sizes. body_size + 1 < s}"

section \<open>A sample page\<close>

text \<open>
  An image block, a title of size 24, a subtitle of size 18, a note in sizes 14 and 13 and
  two lines of body text in sizes 10.5 and 10.
\<close>

definition ex_span :: "string \<Rightarrow> rat \<Rightarrow> int \<Rightarrow> span" where
  "ex_span t z f = \<lparr>span_text = Some (ascii t), span_size = Some z, span_flags = Some f\<rparr>"

definition ex_text_block :: "rat \<Rightarrow> rat \<Rightarrow> span list list \<Rightarrow> block" where
  "ex_text_block y0 y1 ls =
     \<lparr>btype = Some 0, lines = Some (map (\<lambda>ss. \<lparr>spans = Some ss\<rparr>) ls),
      bbox = Some (0, y0, 100, y1)\<rparr>"

definition ex_image_block :: block where
  "ex_image_block = \<lparr>btype = Some 1, lines = None, bbox = Some (0, 0, 100, 50)\<rparr>"

definition ex_blocks :: "block list" where
  "ex_blocks =
     [ex_image_block,
      ex_text_block 60 84 [[ex_span ''Title'' 24 16]],
      ex_text_block 90 108 [[ex_span ''Sub'' 18 0]],
      ex_text_block 112 126 [[ex_span ''Note'' 14 0, ex_span '' x '' 13 0]],
      ex_text_block 130 152 [[ex_span ''Body text '' (21 / 2) 0], [ex_span ''more.'' 10 0]]]"

definition ex_page :: page where
  "ex_page = \<lparr>text_blocks = Some ex_blocks, sorted_blocks = Some ex_blocks\<rparr>"

definition ex_spans :: "(int \<times> bool \<times> pystr) list" where
  "ex_spans = [(24, True, ascii ''Title''), (18, False, ascii ''Sub''), (14, False, ascii ''Note''),
     (13, False, ascii '' x ''), (10, False, ascii ''Body text ''), (10, False, ascii ''more.'')]"

text \<open>
  The spans of a block as the conversion loop visits them, an absent list being empty,
  with the text and the rounded size that lines 147 and 148 give a span.
\<close>

definition line_span_list :: "line \<Rightarrow> span list" where
  "line_span_list l = (case spans l of None \<Rightarrow> [] | Some ss \<Rightarrow> ss)"

definition block_line_list :: "block \<Rightarrow> line list" where
  "block_line_list b = (case lines b of None \<Rightarrow> [] | Some ls \<Rightarrow> ls)"

definition block_span_list :: "block \<Rightarrow> span list" where
  "block_span_list b = concat (map line_span_list (block_line_list b))"

definition span_chars :: "span \<Rightarrow> pystr" where
  "span_chars s = (case span_text s of None \<Rightarrow> [] | Some t \<Rightarrow> t)"

definition span_rounded_size :: "int \<Rightarrow> span \<Rightarrow> int" where
  "span_rounded_size body_size s = (case span_size s of None \<Rightarrow> body_size | Some z \<Rightarrow> py_round z)"

text \<open>
  The average size of a block for a weight \<open>w\<close> of its spans: the rounded quotient of
  the sum of size times weight by the sum of the weights, and the body size when the
  weights sum to 0. The specification weighs a span by the length of its stripped text.
\<close>

definition weighted_average :: "(span \<Rightarrow> nat) \<Rightarrow> int \<Rightarrow> block \<Rightarrow> int" where
  "weighted_average w body_size b =
     (let n = (\<Sum>s\<leftarrow>block_span_list b. w s)
      in if n = 0 then body_size
         else py_round (of_int (\<Sum>s\<leftarrow>block_span_list b. span_rounded_size body_size s * int (w s))
                        / of_int (int n)))"

definition stripped_average :: "int \<Rightarrow> block \<Rightarrow> int" where
  "stripped_average body_size b = weighted_average (\<lambda>s. length (strip (span_chars s))) body_size b"

definition raw_average :: "int \<Rightarrow> block \<Rightarrow> int" where
  "raw_average body_size b = weighted_average (\<lambda>s. length (span_chars s)) body_size b"

text \<open>The value of \<open>block_avg_size\<close> after line 166.\<close>

definition block_average :: "int \<Rightarrow> block \<Rightarrow> int" where
  "block_average body_size b =
     (case scan_block body_size b of (ls, total_size, span_count) \<Rightarrow>
        block_avg_size body_size total_size span_count)"

text \<open>A block of one line: the letter A in size 20 and ten spaces in size 12.\<close>

definition ex_padded_block :: block where
  "ex_padded_block = ex_text_block 0 20 [[ex_span ''A'' 20 0, ex_span ''          '' 12 0]]"

text \<open>The fragment that a flush appends: none when no paragraph is open.\<close>

definition flush_fragment :: "state \<Rightarrow> pystr list" where
  "flush_fragment st =
     (if current_paragraph st \<noteq> [] then [strip (current_paragraph st) @ [10]] else [])"

text \<open>The test \<open>vertical_gap > (body_size * 0.7)\<close> of line 177.\<close>

definition gap_exceeds :: "int \<Rightarrow> block \<Rightarrow> state \<Rightarrow> bool" where
  "gap_exceeds body_size b st \<longleftrightarrow>
     gap_threshold body_size < round_double (block_top b - last_block_bottom st)"

text \<open>No two neighbours in a list of fragments are both the empty string.\<close>

fun no_double_blank :: "pystr list \<Rightarrow> bool" where
  "no_double_blank (x # y # fs) \<longleftrightarrow> \<not> (x = [] \<and> y = []) \<and> no_double_blank (y # fs)"
| "no_double_blank fs \<longleftrightarrow> True"
text \<open>
  A page of three blocks in size 10, each well below the one before: the word Hello,
  a single space, the word World. The state is the one before the third block.
\<close>

definition ex_gap_blocks :: "block list" where
  "ex_gap_blocks =
     [ex_text_block 0 12 [[ex_span ''Hello'' 10 0]],
      ex_text_block 40 52 [[ex_span '' '' 10 0]],
      ex_text_block 80 92 [[ex_span ''World'' 10 0]]]"

definition ex_gap_page :: page where
  "ex_gap_page = \<lparr>text_blocks = Some ex_gap_blocks, sorted_blocks = Some ex_gap_blocks\<rparr>"

definition ex_gap_state :: state where
  "ex_gap_state =
     \<lparr>markdown_output = [page_marker 0, ascii ''Hello'' @ [10], []],
      last_block_bottom = 52, current_paragraph = []\<rparr>"

text \<open>
  The rule for bold spans as the specification words it: a bold span is wrapped unless
  the line so far ends with the marker and the text of the span does not begin with it.
\<close>

definition add_span_claimed :: "part \<Rightarrow> pystr \<Rightarrow> pystr" where
  "add_span_claimed p line_so_far =
     (if part_bold p then
        (if endswith line_so_far [42, 42] \<and> \<not> startswith (part_text p) [42, 42]
         then line_so_far @ part_text p
         else line_so_far @ [42, 42] @ part_text p @ [42, 42])
      else line_so_far @ part_text p)"

definition claimed_line :: "part list \<Rightarrow> pystr" where
  "claimed_line ps = fold add_span_claimed ps []"

text \<open>A state with one fragment and the open paragraph Hello.\<close>

definition ex_open_state :: state where
  "ex_open_state =
     \<lparr>markdown_output = [page_marker 0], last_block_bottom = 12,
      current_paragraph = ascii ''Hello''\<rparr>"

text \<open>A block of two spaces in size 24.\<close>

definition ex_blank_block :: block where
  "ex_blank_block = ex_text_block 20 44 [[ex_span ''  '' 24 0]]"

text \<open>
  The keys that \<open>determine_font_styles\<close> reads with a subscript are all there: the type of
  every block, the lines of a text block, the spans of its lines, and the size, the flags
  and the text of their spans.
\<close>

definition complete_span :: "span \<Rightarrow> bool" where
  "complete_span s \<longleftrightarrow> span_size s \<noteq> None \<and> span_flags s \<noteq> None \<and> span_text s \<noteq> None"

definition complete_line :: "line \<Rightarrow> bool" where
  "complete_line l = (case spans l of None \<Rightarrow> False | Some ss \<Rightarrow> list_all complete_span ss)"

definition complete_block :: "block \<Rightarrow> bool" where
  "complete_block b =
     (case btype b of
        None \<Rightarrow> False
      | Some t \<Rightarrow>
        if t = 0 then (case lines b of None \<Rightarrow> False | Some ls \<Rightarrow> list_all complete_line ls)
        else True)"

text \<open>The spans of the text blocks of a page, and whether one of them has any text.\<close>

definition text_span_list :: "block list \<Rightarrow> span list" where
  "text_span_list bs = concat (map block_span_list (filter (\<lambda>b. btype b = Some 0) bs))"

definition has_span_with_text :: "block list \<Rightarrow> bool" where
  "has_span_with_text bs = list_ex (\<lambda>s. span_chars s \<noteq> []) (text_span_list bs)"

text \<open>A page whose only span has the empty text, in size 12.\<close>

definition ex_empty_blocks :: "block list" where
  "ex_empty_blocks = [ex_text_block 0 12 [[ex_span [] 12 0]]]"

definition ex_empty_page :: page where
  "ex_empty_page = \<lparr>text_blocks = Some ex_empty_blocks, sorted_blocks = Some ex_empty_blocks\<rparr>"

text \<open>A page that holds an image and nothing else.\<close>

definition ex_image_page :: page where
  "ex_image_page = \<lparr>text_blocks = Some [ex_image_block], sorted_blocks = Some [ex_image_block]\<rparr>"

text \<open>A page whose only span has the text Hello and the flags 0, but no size.\<close>

definition ex_malformed_block :: block where
  "ex_malformed_block =
     \<lparr>btype = Some 0,
      lines = Some [\<lparr>spans = Some [\<lparr>span_text = Some (ascii ''Hello''), span_size = None,
                                      span_flags = Some 0\<rparr>]\<rparr>],
      bbox = Some (0, 0, 100, 12)\<rparr>"

definition ex_malformed_page :: page where
  "ex_malformed_page =
     \<lparr>text_blocks = Some [ex_malformed_block], sorted_blocks = Some [ex_malformed_block]\<rparr>"

section \<open>Properties of the counters\<close>

lemma count_of_counter_add:
  "count_of (counter_add k n c) k' = (if k' = k then count_of c k + n else count_of c k')"
  by (induction c) (auto simp: count_of_def)

lemma keys_counter_add: "fst ` set (counter_add k n c) = insert k (fst ` set c)"
proof (induction c)
  case Nil
  show ?case by simp
next
  case (Cons a c)
  obtain k' m where a: "a = (k', m)" by (cases a)
  show ?case using Cons by (cases "k = k'") (auto simp: a)
qed

lemma distinct_counter_add:
  "distinct (map fst c) \<Longrightarrow> distinct (map fst (counter_add k n c))"
  by (induction c) (auto simp: keys_counter_add)

lemma counter_add_not_Nil: "counter_add k n c \<noteq> []"
  by (cases c) (auto split: if_splits)

lemma count_of_tally:
  "count_of (tally key w xs c) k = count_of c k + sum_list (map w (filter (\<lambda>x. key x = k) xs))"
  by (induction xs arbitrary: c) (auto simp: tally_def count_of_counter_add)

lemma keys_tally: "fst ` set (tally key w xs c) = fst ` set c \<union> key ` set xs"
  by (induction xs arbitrary: c) (auto simp: tally_def keys_counter_add)

lemma distinct_tally:
  "distinct (map fst c) \<Longrightarrow> distinct (map fst (tally key w xs c))"
  by (induction xs arbitrary: c) (auto simp: tally_def distinct_counter_add)

lemma count_of_member:
  "distinct (map fst c) \<Longrightarrow> (k, n) \<in> set c \<Longrightarrow> count_of c k = n"
  by (simp add: count_of_def)

lemma max_item_mem: "max_item best c \<in> set (best # c)"
  by (induction c arbitrary: best) auto

lemma max_item_ge_best: "snd best \<le> snd (max_item best c)"
proof (induction c arbitrary: best)
  case Nil
  show ?case by simp
next
  case (Cons a c)
  show ?case
  proof (cases "snd best < snd a")
    case True
    then show ?thesis using Cons [of a] by simp
  next
    case False
    then show ?thesis using Cons [of best] by simp
  qed
qed

lemma max_item_ge: "kv \<in> set (best # c) \<Longrightarrow> snd kv \<le> snd (max_item best c)"
proof (induction c arbitrary: best)
  case Nil
  then show ?case by simp
next
  case (Cons a c)
  let ?b = "if snd best < snd a then a else best"
  have b: "snd best \<le> snd ?b" "snd a \<le> snd ?b" by auto
  have m: "snd ?b \<le> snd (max_item ?b c)" by (rule max_item_ge_best)
  from Cons.prems consider "kv = best" | "kv = a" | "kv \<in> set c" by auto
  then show ?case
  proof cases
    case 1 then show ?thesis using b(1) m by simp
  next
    case 2 then show ?thesis using b(2) m by simp
  next
    case 3 then show ?thesis using Cons.IH [of ?b] by simp
  qed
qed

lemma count_of_absent: "k \<notin> fst ` set c \<Longrightarrow> count_of c k = 0"
  by (force simp: count_of_def split: option.splits dest: map_of_SomeD)

lemma count_of_Nil: "count_of [] k = 0"
  by (simp add: count_of_def)

lemma size_counts_tally:
  "size_counts sp = tally fst (\<lambda>x. length (strip (snd (snd x)))) sp []"
  unfolding size_counts_def tally_def
  by (rule arg_cong [where f = "\<lambda>f. fold f sp []"]) (auto simp: fun_eq_iff)

lemma char_weight_alt:
  "char_weight sp s = sum_list (map (\<lambda>x. length (strip (snd (snd x)))) (filter (\<lambda>x. fst x = s) sp))"
proof -
  have "(\<lambda>(z, b, t). z = s) = (\<lambda>x :: int \<times> bool \<times> pystr. fst x = s)"
    by (auto simp: fun_eq_iff)
  moreover have "(\<lambda>(z, b, t). length (strip t)) = (\<lambda>x :: int \<times> bool \<times> pystr. length (strip (snd (snd x))))"
    by (auto simp: fun_eq_iff)
  ultimately show ?thesis by (simp add: char_weight_def)
qed

lemma count_of_size_counts: "count_of (size_counts sp) s = char_weight sp s"
  by (simp add: size_counts_tally count_of_tally char_weight_alt count_of_Nil)

lemma most_common1_max:
  assumes "c \<noteq> []" and "distinct (map fst c)"
  shows "fst (hd (most_common1 c)) \<in> fst ` set c"
    and "count_of c k \<le> count_of c (fst (hd (most_common1 c)))"
proof -
  obtain kv c' where c: "c = kv # c'" using assms(1) by (cases c) auto
  let ?m = "max_item kv c'"
  have hd: "hd (most_common1 c) = ?m" by (simp add: most_common1_def c)
  have mem: "?m \<in> set c" using max_item_mem [of kv c'] by (simp add: c)
  then show "fst (hd (most_common1 c)) \<in> fst ` set c" by (simp add: hd)
  have "(fst ?m, snd ?m) \<in> set c" using mem by simp
  then have cm: "count_of c (fst ?m) = snd ?m" by (rule count_of_member [OF assms(2)])
  show "count_of c k \<le> count_of c (fst (hd (most_common1 c)))"
  proof (cases "k \<in> fst ` set c")
    case True
    then obtain n where kn: "(k, n) \<in> set c" by auto
    then have "count_of c k = n" by (rule count_of_member [OF assms(2)])
    moreover have "snd (k, n) \<le> snd ?m" using kn max_item_ge [of "(k, n)" kv c'] by (simp add: c)
    ultimately show ?thesis by (simp add: hd cm)
  next
    case False
    then show ?thesis by (simp add: count_of_absent)
  qed
qed

lemma mode_max:
  assumes "xs \<noteq> []"
  shows "mode xs \<in> set xs" and "count_list xs x \<le> count_list xs (mode xs)"
proof -
  let ?c = "tally (\<lambda>x. x) (\<lambda>x. 1) xs []"
  have m: "mode xs = fst (hd (most_common1 ?c))" by (simp add: mode_def tally_def)
  have keys: "fst ` set ?c = set xs" by (simp add: keys_tally)
  have ne: "?c \<noteq> []" using keys assms by auto
  have d: "distinct (map fst ?c)" by (rule distinct_tally) simp
  have cnt: "count_of ?c y = count_list xs y" for y
  proof -
    have "(\<lambda>z. z = y) = ((=) y)" by auto
    then show ?thesis
      by (simp add: count_of_tally count_of_Nil count_list_eq_length_filter sum_list_triv)
  qed
  show "mode xs \<in> set xs" using most_common1_max(1) [OF ne d] keys m by simp
  show "count_list xs x \<le> count_list xs (mode xs)"
    using most_common1_max(2) [OF ne d, of x] unfolding m [symmetric] cnt .
qed

lemma size_counts_keys: "fst ` set (size_counts sp) = set (all_sizes sp)"
  by (simp add: size_counts_tally keys_tally all_sizes_def)

lemma size_counts_distinct: "distinct (map fst (size_counts sp))"
  unfolding size_counts_tally by (rule distinct_tally) simp

lemma size_counts_not_Nil: "sp \<noteq> [] \<Longrightarrow> size_counts sp \<noteq> []"
  using size_counts_keys [of sp] by (auto simp: all_sizes_def)

lemma select_body_size_max:
  assumes "sp \<noteq> []"
  shows "select_body_size (size_counts sp) (all_sizes sp) \<in> set (all_sizes sp)"
    and "char_weight sp s \<le> char_weight sp (select_body_size (size_counts sp) (all_sizes sp))"
proof -
  have ne: "size_counts sp \<noteq> []" using assms by (rule size_counts_not_Nil)
  have b: "select_body_size (size_counts sp) (all_sizes sp) = fst (hd (most_common1 (size_counts sp)))"
    using ne by (simp add: select_body_size_def)
  show "select_body_size (size_counts sp) (all_sizes sp) \<in> set (all_sizes sp)"
    using most_common1_max(1) [OF ne size_counts_distinct] by (simp add: b size_counts_keys)
  show "char_weight sp s \<le> char_weight sp (select_body_size (size_counts sp) (all_sizes sp))"
    using most_common1_max(2) [OF ne size_counts_distinct, of s]
    by (simp add: b count_of_size_counts)
qed

lemma determine_font_styles_spans:
  assumes "text_blocks p = Some bs" and "page_spans bs = Inr sp" and "sp \<noteq> []"
  shows "determine_font_styles p =
     Inr (Some (select_body_size (size_counts sp) (all_sizes sp)),
          assign_levels 1 (heading_candidates (all_sizes sp)
             (select_body_size (size_counts sp) (all_sizes sp))))"
proof -
  have "bs \<noteq> []" using assms by (auto simp: page_spans_def)
  moreover have "all_sizes sp \<noteq> []" using assms(3) by (simp add: all_sizes_def)
  moreover have "size_counts sp \<noteq> []" using assms(3) by (rule size_counts_not_Nil)
  ultimately show ?thesis using assms(1,2) by (simp add: determine_font_styles_def Let_def)
qed

section \<open>Rounding\<close>

lemma py_round_div:
  assumes "0 < b"
  shows "py_round (of_int a / of_int b) =
     (let q = a div b; r = a mod b
      in if 2 * r < b then q else if b < 2 * r then q + 1 else if even q then q else q + 1)"
proof -
  have fl: "\<lfloor>(of_int a / of_int b :: rat)\<rfloor> = a div b"
    by (simp add: floor_divide_of_int_eq)
  have "(of_int a :: rat) = of_int (a div b) * of_int b + of_int (a mod b)"
    by (metis of_int_add of_int_mult div_mult_mod_eq)
  then have d: "(of_int a / of_int b :: rat) - of_int (a div b) = of_int (a mod b) / of_int b"
    using assms by (simp add: field_simps)
  have lt: "(of_int (a mod b) / of_int b < (1 / 2 :: rat)) \<longleftrightarrow> 2 * (a mod b) < b"
  proof -
    have "(of_int (a mod b) / of_int b < (1 / 2 :: rat)) \<longleftrightarrow> (of_int (2 * (a mod b)) < (of_int b :: rat))"
      using assms by (simp add: field_simps)
    then show ?thesis by (simp only: of_int_less_iff)
  qed
  have gt: "((1 / 2 :: rat) < of_int (a mod b) / of_int b) \<longleftrightarrow> b < 2 * (a mod b)"
  proof -
    have "((1 / 2 :: rat) < of_int (a mod b) / of_int b) \<longleftrightarrow> ((of_int b :: rat) < of_int (2 * (a mod b)))"
      using assms by (simp add: field_simps)
    then show ?thesis by (simp only: of_int_less_iff)
  qed
  show ?thesis
    unfolding py_round_def Let_def fl d lt gt by simp
qed

lemma py_round_numeral: "py_round (numeral n) = numeral n"
  by (simp add: py_round_def Let_def)

lemma py_round_21_2: "py_round (21 / 2) = 10"
  using py_round_div [of 2 21] by simp

section \<open>Rounding to a double\<close>

lemma nat_log2_bounds: "0 < n \<Longrightarrow> 2 ^ nat_log2 n \<le> n \<and> n < 2 ^ Suc (nat_log2 n)"
proof (induction n rule: nat_log2.induct)
  case (1 n)
  show ?case
  proof (cases "n < 2")
    case True
    then have "n = 1" using 1(2) by simp
    then show ?thesis by (simp add: nat_log2.simps)
  next
    case False
    then have "0 < n div 2" by simp
    then have ih: "2 ^ nat_log2 (n div 2) \<le> n div 2" "n div 2 < 2 ^ Suc (nat_log2 (n div 2))"
      using 1(1) [OF False] by simp_all
    have l: "nat_log2 n = Suc (nat_log2 (n div 2))" using False by (simp add: nat_log2.simps)
    have "2 * 2 ^ nat_log2 (n div 2) \<le> n" using ih(1) by linarith
    moreover have "n < 2 * 2 ^ Suc (nat_log2 (n div 2))" using ih(2) by linarith
    ultimately show ?thesis by (simp add: l)
  qed
qed

lemma floor_log2_bounds:
  assumes "0 < x"
  shows "2 powi floor_log2 x \<le> x" and "x < 2 powi (floor_log2 x + 1)"
proof -
  obtain p q where pq: "quotient_of x = (p, q)" by (cases "quotient_of x")
  have q: "0 < q" using quotient_of_denom_pos [OF pq] .
  have x: "x = of_int p / of_int q" using quotient_of_div [OF pq] .
  have p: "0 < p" using assms q by (simp add: x zero_less_divide_iff)
  let ?a = "nat_log2 (nat p)" and ?b = "nat_log2 (nat q)"
  let ?d = "int ?a - int ?b"
  have pb: "2 ^ ?a \<le> nat p" "nat p < 2 ^ Suc ?a" using nat_log2_bounds [of "nat p"] p by simp_all
  have qb: "2 ^ ?b \<le> nat q" "nat q < 2 ^ Suc ?b" using nat_log2_bounds [of "nat q"] q by simp_all
  have pr: "(of_int p :: rat) < 2 ^ Suc ?a"
  proof -
    have "(of_nat (nat p) :: rat) < of_nat (2 ^ Suc ?a)" using pb(2) by (simp only: of_nat_less_iff)
    then show ?thesis using p by simp
  qed
  have qr: "(2 :: rat) ^ ?b \<le> of_int q"
  proof -
    have "(of_nat (2 ^ ?b) :: rat) \<le> of_nat (nat q)" using qb(1) by (simp only: of_nat_le_iff)
    then show ?thesis using q by simp
  qed
  have d1: "(2 :: rat) powi (?d + 1) = 2 ^ Suc ?a / 2 ^ ?b"
  proof -
    have e: "?d + 1 = int (Suc ?a) - int ?b" by simp
    have "(2 :: rat) powi (int (Suc ?a) - int ?b) = 2 powi int (Suc ?a) / 2 powi int ?b"
      by (rule power_int_diff) simp
    also have "\<dots> = 2 ^ Suc ?a / 2 ^ ?b" by (simp only: power_int_of_nat)
    finally show ?thesis by (simp only: e)
  qed
  have up: "x < 2 powi (?d + 1)"
  proof -
    have "of_int p / of_int q < (2 :: rat) ^ Suc ?a / of_int q"
      using pr q by (simp add: divide_strict_right_mono)
    also have "\<dots> \<le> 2 ^ Suc ?a / 2 ^ ?b"
      using qr by (simp add: frac_le)
    finally show ?thesis by (simp only: x d1)
  qed
  have pl: "(2 :: rat) ^ ?a \<le> of_int p"
  proof -
    have "(of_nat (2 ^ ?a) :: rat) \<le> of_nat (nat p)" using pb(1) by (simp only: of_nat_le_iff)
    then show ?thesis using p by simp
  qed
  have qu: "(of_int q :: rat) < 2 ^ Suc ?b"
  proof -
    have "(of_nat (nat q) :: rat) < of_nat (2 ^ Suc ?b)" using qb(2) by (simp only: of_nat_less_iff)
    then show ?thesis using q by simp
  qed
  have d0: "(2 :: rat) powi (?d - 1) = 2 ^ ?a / 2 ^ Suc ?b"
  proof -
    have e: "?d - 1 = int ?a - int (Suc ?b)" by simp
    have "(2 :: rat) powi (int ?a - int (Suc ?b)) = 2 powi int ?a / 2 powi int (Suc ?b)"
      by (rule power_int_diff) simp
    also have "\<dots> = 2 ^ ?a / 2 ^ Suc ?b" by (simp only: power_int_of_nat)
    finally show ?thesis by (simp only: e)
  qed
  have lo: "2 powi (?d - 1) \<le> x"
  proof -
    have "(2 :: rat) ^ ?a / 2 ^ Suc ?b \<le> of_int p / 2 ^ Suc ?b"
      using pl by (simp add: divide_right_mono)
    also have "\<dots> \<le> of_int p / of_int q"
      using qu q p by (intro divide_left_mono) (simp_all add: less_imp_le)
    finally show ?thesis by (simp only: x d0)
  qed
  have f: "floor_log2 x = (if 2 powi ?d \<le> x then ?d else ?d - 1)"
    by (simp add: floor_log2_def pq Let_def)
  show "2 powi floor_log2 x \<le> x" using lo by (simp add: f)
  show "x < 2 powi (floor_log2 x + 1)" using up by (auto simp: f not_le)
qed

lemma floor_log2_unique:
  assumes "2 powi e \<le> x" and "x < 2 powi (e + 1)"
  shows "floor_log2 x = e"
proof -
  have "0 < (2 :: rat) powi e" by simp
  then have x: "0 < x" using assms(1) by linarith
  note b = floor_log2_bounds [OF x]
  show ?thesis
  proof (rule ccontr)
    assume "floor_log2 x \<noteq> e"
    then consider "floor_log2 x + 1 \<le> e" | "e + 1 \<le> floor_log2 x" by linarith
    then show False
    proof cases
      case 1
      then have "(2 :: rat) powi (floor_log2 x + 1) \<le> 2 powi e" by (intro power_int_increasing) simp_all
      then show False using b(2) assms(1) by linarith
    next
      case 2
      then have "(2 :: rat) powi (e + 1) \<le> 2 powi floor_log2 x" by (intro power_int_increasing) simp_all
      then show False using b(1) assms(2) by linarith
    qed
  qed
qed

lemma round_double_exponent:
  assumes "2 powi e \<le> \<bar>x\<bar>" and "\<bar>x\<bar> < 2 powi (e + 1)"
  shows "round_double x = of_int (py_round (x / 2 powi (e - 52))) * 2 powi (e - 52)"
proof -
  have "0 < (2 :: rat) powi e" by simp
  then have "0 < \<bar>x\<bar>" using assms(1) by linarith
  then have "x \<noteq> 0" by simp
  then show ?thesis by (simp add: round_double_def floor_log2_unique [OF assms] Let_def)
qed

lemma double_0_7_value: "double_0_7 = 6305039478318694 / 2 ^ 53"
proof -
  have r: "py_round (31525197391593472 / 5) = 6305039478318694"
    using py_round_div [of 5 31525197391593472] by simp
  have "round_double (7 / 10) = of_int (py_round ((7 / 10) / 2 powi (- 1 - 52))) * 2 powi (- 1 - 52)"
    by (rule round_double_exponent) simp_all
  then show ?thesis by (simp add: double_0_7_def r)
qed

lemma round_double_10: "round_double 10 = 10"
proof -
  have "round_double 10 = of_int (py_round (10 / 2 powi (3 - 52))) * 2 powi (3 - 52)"
    by (rule round_double_exponent) simp_all
  then show ?thesis by (simp add: py_round_numeral)
qed

lemma gap_threshold_10: "gap_threshold 10 = 7"
proof -
  let ?x = "10 * (6305039478318694 / 2 ^ 53) :: rat"
  have r: "py_round (15762598695796735 / 2) = 7881299347898368"
    using py_round_div [of 2 15762598695796735] by simp
  have "round_double ?x = of_int (py_round (?x / 2 powi (2 - 52))) * 2 powi (2 - 52)"
    by (rule round_double_exponent) simp_all
  then have "round_double ?x = 7" by (simp add: r)
  then show ?thesis by (simp add: gap_threshold_def round_double_10 double_0_7_value)
qed

lemma round_double_45: "round_double 45 = 45"
proof -
  have "round_double 45 = of_int (py_round (45 / 2 powi (5 - 52))) * 2 powi (5 - 52)"
    by (rule round_double_exponent) simp_all
  then show ?thesis by (simp add: py_round_numeral)
qed

lemma gap_threshold_45: "gap_threshold 45 = 8866461766385663 / 2 ^ 48" "gap_threshold 45 < 63 / 2"
proof -
  let ?x = "45 * (6305039478318694 / 2 ^ 53) :: rat"
  have r: "py_round (141863388262170615 / 16) = 8866461766385663"
    using py_round_div [of 16 141863388262170615] by simp
  have "round_double ?x = of_int (py_round (?x / 2 powi (4 - 52))) * 2 powi (4 - 52)"
    by (rule round_double_exponent) simp_all
  then have "round_double ?x = 8866461766385663 / 2 ^ 48" by (simp add: r)
  then show "gap_threshold 45 = 8866461766385663 / 2 ^ 48"
    by (simp add: gap_threshold_def round_double_45 double_0_7_value)
  then show "gap_threshold 45 < 63 / 2" by simp
qed

lemma round_double_28: "round_double 28 = 28"
proof -
  have "round_double 28 = of_int (py_round (28 / 2 powi (4 - 52))) * 2 powi (4 - 52)"
    by (rule round_double_exponent) simp_all
  then show ?thesis by (simp add: py_round_numeral)
qed

lemma round_double_8: "round_double 8 = 8"
proof -
  have "round_double 8 = of_int (py_round (8 / 2 powi (3 - 52))) * 2 powi (3 - 52)"
    by (rule round_double_exponent) simp_all
  then show ?thesis by (simp add: py_round_numeral)
qed

section \<open>Heading levels\<close>

lemma heading_candidates_set:
  "set (heading_candidates sizes b) = larger_sizes sizes b"
  by (auto simp: heading_candidates_def larger_sizes_def)

lemma heading_candidates_distinct: "distinct (heading_candidates sizes b)"
  by (simp add: heading_candidates_def)

lemma heading_candidates_descending: "sorted_wrt (\<lambda>x y. y < x) (heading_candidates sizes b)"
proof -
  let ?xs = "sort (filter (\<lambda>s. b + 1 < s) (remdups sizes))"
  have "sorted ?xs" and "distinct ?xs" by simp_all
  then have "sorted_wrt (<) ?xs" by (simp add: strict_sorted_iff)
  then show ?thesis by (simp add: heading_candidates_def sorted_wrt_rev)
qed

lemma descending_above:
  fixes cs :: "int list"
  assumes "sorted_wrt (\<lambda>x y. y < x) cs" and "i < length cs"
  shows "{t \<in> set cs. cs ! i < t} = set (take i cs)"
proof (intro set_eqI iffI)
  fix t
  assume "t \<in> {t \<in> set cs. cs ! i < t}"
  then obtain j where j: "j < length cs" "cs ! j = t" "cs ! i < cs ! j"
    by (auto simp: in_set_conv_nth)
  have "j < i"
  proof (rule ccontr)
    assume "\<not> j < i"
    then consider "j = i" | "i < j" by linarith
    then show False
    proof cases
      case 1 then show False using j(3) by simp
    next
      case 2
      then have "cs ! j < cs ! i" using sorted_wrt_nth_less [OF assms(1) 2 j(1)] by simp
      then show False using j(3) by simp
    qed
  qed
  then show "t \<in> set (take i cs)" using j(1,2) assms(2) by (auto simp: in_set_conv_nth)
next
  fix t
  assume "t \<in> set (take i cs)"
  then obtain j where j: "j < i" "cs ! j = t" using assms(2) by (auto simp: in_set_conv_nth)
  have "cs ! i < cs ! j" using sorted_wrt_nth_less [OF assms(1) j(1) assms(2)] by simp
  moreover have "j < length cs" using j(1) assms(2) by simp
  then have "t \<in> set cs" using nth_mem [of j cs] j(2) by simp
  ultimately show "t \<in> {t \<in> set cs. cs ! i < t}" using j(2) by simp
qed

lemma descending_rank:
  fixes cs :: "int list"
  assumes "sorted_wrt (\<lambda>x y. y < x) cs" and "distinct cs" and "i < length cs"
  shows "card {t \<in> set cs. cs ! i < t} = i"
proof -
  have "card (set (take i cs)) = length (take i cs)"
    using assms(2) by (simp add: distinct_card)
  then show ?thesis using descending_above [OF assms(1,3)] assms(3) by simp
qed

lemma assign_levels_lookup:
  "distinct cs \<Longrightarrow>
   map_of (assign_levels l cs) s = Some k \<longleftrightarrow> (\<exists>i<length cs. cs ! i = s \<and> k = l + i \<and> k \<le> 3)"
proof (induction cs arbitrary: l)
  case Nil
  show ?case by simp
next
  case (Cons c cs)
  show ?case
  proof (cases "l \<le> 3")
    case False
    then show ?thesis by auto
  next
    case l: True
    show ?thesis
    proof (cases "s = c")
      case True
      have "(\<exists>i<length (c # cs). (c # cs) ! i = s \<and> k = l + i \<and> k \<le> 3) \<longleftrightarrow> k = l"
      proof
        assume "\<exists>i<length (c # cs). (c # cs) ! i = s \<and> k = l + i \<and> k \<le> 3"
        then obtain i where i: "i < length (c # cs)" "(c # cs) ! i = s" "k = l + i" by auto
        have "i = 0"
        proof (rule ccontr)
          assume "i \<noteq> 0"
          then obtain j where "i = Suc j" by (cases i) auto
          then have "c \<in> set cs" using i True by (auto simp: in_set_conv_nth)
          then show False using Cons.prems by simp
        qed
        then show "k = l" using i(3) by simp
      next
        assume "k = l"
        then show "\<exists>i<length (c # cs). (c # cs) ! i = s \<and> k = l + i \<and> k \<le> 3"
          using True l by (intro exI [of _ 0]) simp
      qed
      then show ?thesis using True l by auto
    next
      case False
      have "(\<exists>i<length (c # cs). (c # cs) ! i = s \<and> k = l + i \<and> k \<le> 3)
         \<longleftrightarrow> (\<exists>i<length cs. cs ! i = s \<and> k = (l + 1) + i \<and> k \<le> 3)"
      proof
        assume "\<exists>i<length (c # cs). (c # cs) ! i = s \<and> k = l + i \<and> k \<le> 3"
        then obtain i where i: "i < length (c # cs)" "(c # cs) ! i = s" "k = l + i" "k \<le> 3" by auto
        then obtain j where "i = Suc j" using False by (cases i) auto
        then show "\<exists>i<length cs. cs ! i = s \<and> k = (l + 1) + i \<and> k \<le> 3"
          using i by (intro exI [of _ j]) simp
      next
        assume "\<exists>i<length cs. cs ! i = s \<and> k = (l + 1) + i \<and> k \<le> 3"
        then obtain j where "j < length cs" "cs ! j = s" "k = (l + 1) + j" "k \<le> 3" by auto
        then show "\<exists>i<length (c # cs). (c # cs) ! i = s \<and> k = l + i \<and> k \<le> 3"
          by (intro exI [of _ "Suc j"]) simp
      qed
      moreover have "distinct cs" using Cons.prems by simp
      ultimately show ?thesis using Cons.IH [of "l + 1"] False l by simp
    qed
  qed
qed

lemma assign_levels_keys_distinct: "distinct cs \<Longrightarrow> distinct (map fst (assign_levels l cs))"
proof (induction cs arbitrary: l)
  case Nil
  show ?case by simp
next
  case (Cons c cs)
  have "fst ` set (assign_levels l' cs) \<subseteq> set cs" for l'
  proof (induction cs arbitrary: l')
    case Nil show ?case by simp
  next
    case (Cons a cs) then show ?case by (auto split: if_splits) 
  qed
  then show ?case using Cons by (auto split: if_splits)
qed

lemma assign_levels_take: "assign_levels 1 cs = zip (take 3 cs) [1, 2, 3]"
proof (cases cs)
  case Nil then show ?thesis by simp
next
  case (Cons a as)
  note c1 = this
  show ?thesis
  proof (cases as)
    case Nil then show ?thesis by (simp add: c1)
  next
    case (Cons b bs)
    note c2 = this
    show ?thesis
    proof (cases bs)
      case Nil then show ?thesis by (simp add: c1 c2)
    next
      case (Cons c cs') 
      then show ?thesis by (cases cs') (simp_all add: c1 c2 numeral_3_eq_3)
    qed
  qed
qed

lemma heading_levels_rank:
  "map_of (assign_levels 1 (heading_candidates sizes b)) s = Some k \<longleftrightarrow>
     s \<in> larger_sizes sizes b \<and> k = Suc (card {t \<in> larger_sizes sizes b. s < t}) \<and> k \<le> 3"
proof -
  let ?cs = "heading_candidates sizes b"
  have d: "distinct ?cs" by (rule heading_candidates_distinct)
  have sw: "sorted_wrt (\<lambda>x y. y < x) ?cs" by (rule heading_candidates_descending)
  have st: "set ?cs = larger_sizes sizes b" by (rule heading_candidates_set)
  have "(\<exists>i<length ?cs. ?cs ! i = s \<and> k = 1 + i \<and> k \<le> 3)
     \<longleftrightarrow> s \<in> set ?cs \<and> k = Suc (card {t \<in> set ?cs. s < t}) \<and> k \<le> 3"
  proof
    assume "\<exists>i<length ?cs. ?cs ! i = s \<and> k = 1 + i \<and> k \<le> 3"
    then obtain i where i: "i < length ?cs" "?cs ! i = s" "k = 1 + i" "k \<le> 3" by auto
    have "card {t \<in> set ?cs. ?cs ! i < t} = i" by (rule descending_rank [OF sw d i(1)])
    moreover have "s \<in> set ?cs" using nth_mem [OF i(1)] i(2) by simp
    ultimately show "s \<in> set ?cs \<and> k = Suc (card {t \<in> set ?cs. s < t}) \<and> k \<le> 3"
      using i by simp
  next
    assume a: "s \<in> set ?cs \<and> k = Suc (card {t \<in> set ?cs. s < t}) \<and> k \<le> 3"
    then obtain i where i: "i < length ?cs" "?cs ! i = s" by (auto simp: in_set_conv_nth)
    have "card {t \<in> set ?cs. ?cs ! i < t} = i" by (rule descending_rank [OF sw d i(1)])
    then show "\<exists>i<length ?cs. ?cs ! i = s \<and> k = 1 + i \<and> k \<le> 3"
      using a i by (intro exI [of _ i]) simp
  qed
  then show ?thesis using assign_levels_lookup [OF d, of 1 s k] by (simp only: st)
qed

lemma determine_font_styles_cases:
  assumes "determine_font_styles p = Inr (bo, hl)"
  shows "(bo = None \<and> hl = []) \<or>
     (\<exists>bs sp. text_blocks p = Some bs \<and> page_spans bs = Inr sp \<and> sp \<noteq> []
        \<and> bo = Some (select_body_size (size_counts sp) (all_sizes sp))
        \<and> hl = assign_levels 1 (heading_candidates (all_sizes sp) (select_body_size (size_counts sp) (all_sizes sp))))"
  using assms
  by (auto simp: determine_font_styles_def Let_def all_sizes_def split: option.splits if_splits sum.splits)

section \<open>The sample page, evaluated\<close>

lemma ex_page_spans: "page_spans ex_blocks = Inr ex_spans"
  by (simp add: page_spans_def ex_blocks_def ex_image_block_def ex_text_block_def ex_span_def
      block_spans_def line_spans_def read_span_def py_round_numeral py_round_21_2 is_bold_def
      ex_spans_def)

lemma ex_size_counts: "size_counts ex_spans = [(24, 5), (18, 3), (14, 4), (13, 1), (10, 14)]"
  by (simp add: size_counts_def ex_spans_def strip_def lstrip_def rstrip_def ascii_def py_isspace_def)

lemma ex_body: "select_body_size (size_counts ex_spans) (all_sizes ex_spans) = 10"
  by (simp add: ex_size_counts select_body_size_def most_common1_def)

lemma ex_levels: "assign_levels 1 (heading_candidates (all_sizes ex_spans) 10) = [(24, 1), (18, 2), (14, 3)]"
  by (simp add: all_sizes_def ex_spans_def heading_candidates_def sort_key_def insort_key.simps numeral_3_eq_3)

lemma ex_styles: "determine_font_styles ex_page = Inr (Some 10, [(24, 1), (18, 2), (14, 3)])"
proof -
  have t: "text_blocks ex_page = Some ex_blocks" by (simp add: ex_page_def)
  have ne: "ex_spans \<noteq> []" by (simp add: ex_spans_def)
  show ?thesis
    using determine_font_styles_spans [OF t ex_page_spans ne] by (simp only: ex_body ex_levels)
qed

section \<open>The body size (C1)\<close>

text \<open>
  C1. On a page whose text blocks hold at least one span, \<open>determine_font_styles\<close>
  returns as body size the value that lines 64 to 67 select; the weighted table is not empty
  there, and the body size is a rounded size of the page whose character weight (the sum of
  the lengths of the stripped texts of the spans of that size) no other size exceeds.
  Lines 64 to 67, given an empty weighted table, select the statistical mode of the raw
  rounded sizes (a value of the list that no other value outnumbers), and the constant 10
  when that list is empty too.
\<close>

theorem body_size_most_characters:
  "(\<forall>p bs sp. text_blocks p = Some bs \<and> page_spans bs = Inr sp \<and> sp \<noteq> [] \<longrightarrow>
      (\<exists>b hl. determine_font_styles p = Inr (Some b, hl)
          \<and> b = select_body_size (size_counts sp) (all_sizes sp)
          \<and> size_counts sp \<noteq> []
          \<and> b \<in> set (all_sizes sp)
          \<and> (\<forall>s. char_weight sp s \<le> char_weight sp b)))
   \<and> (\<forall>sizes. sizes \<noteq> [] \<longrightarrow>
         select_body_size [] sizes = mode sizes \<and> mode sizes \<in> set sizes
         \<and> (\<forall>x. count_list sizes x \<le> count_list sizes (mode sizes)))
   \<and> select_body_size [] [] = 10"
proof (intro conjI allI impI)
  fix p :: page and bs sp
  assume a: "text_blocks p = Some bs \<and> page_spans bs = Inr sp \<and> sp \<noteq> []"
  then have ne: "sp \<noteq> []" by simp
  show "\<exists>b hl. determine_font_styles p = Inr (Some b, hl)
          \<and> b = select_body_size (size_counts sp) (all_sizes sp)
          \<and> size_counts sp \<noteq> []
          \<and> b \<in> set (all_sizes sp)
          \<and> (\<forall>s. char_weight sp s \<le> char_weight sp b)"
    using determine_font_styles_spans [of p bs sp] a
      select_body_size_max [OF ne] size_counts_not_Nil [OF ne] by simp
next
  fix sizes :: "int list"
  assume "sizes \<noteq> []"
  then show "select_body_size [] sizes = mode sizes" by (simp add: select_body_size_def)
next
  fix sizes :: "int list"
  assume "sizes \<noteq> []"
  then show "mode sizes \<in> set sizes" by (rule mode_max(1))
next
  fix sizes :: "int list" and x
  assume "sizes \<noteq> []"
  then show "count_list sizes x \<le> count_list sizes (mode sizes)" by (rule mode_max(2))
next
  show "select_body_size [] [] = 10" by (simp add: select_body_size_def)
qed

theorem body_size_most_characters_witness:
  "text_blocks ex_page = Some ex_blocks \<and> page_spans ex_blocks = Inr ex_spans \<and> ex_spans \<noteq> []
   \<and> determine_font_styles ex_page = Inr (Some 10, [(24, 1), (18, 2), (14, 3)])
   \<and> (\<forall>s. char_weight ex_spans s \<le> char_weight ex_spans 10)
   \<and> [12, 10, 12] \<noteq> ([] :: int list) \<and> select_body_size [] [12, 10, 12] = 12"
proof -
  have h: "text_blocks ex_page = Some ex_blocks \<and> page_spans ex_blocks = Inr ex_spans \<and> ex_spans \<noteq> []"
    by (simp add: ex_page_def ex_page_spans) (simp add: ex_spans_def)
  have m: "mode [12, 10, 12] = 12" by (simp add: mode_def most_common1_def)
  show ?thesis
    using body_size_most_characters [THEN conjunct1, rule_format, OF h]
      body_size_most_characters [THEN conjunct2, THEN conjunct1, rule_format, of "[12, 10, 12]"]
      h m ex_styles ex_body
    by auto
qed

section \<open>The heading levels (C2)\<close>

text \<open>
  C2. Whenever \<open>determine_font_styles\<close> returns, the heading map is empty for a skipped
  page, and otherwise it pairs the first three of the distinct rounded sizes above
  \<open>body_size + 1\<close>, in descending order, with the levels 1, 2 and 3: a size has level
  \<open>k\<close> exactly when it is such a size, exactly \<open>k - 1\<close> such sizes are larger, and
  \<open>k\<close> is at most 3. Every other size has no level.
\<close>

theorem heading_levels_three_largest:
  assumes "determine_font_styles p = Inr (bo, hl)"
  shows "case bo of
           None \<Rightarrow> hl = []
         | Some b \<Rightarrow>
             (\<exists>bs sp. text_blocks p = Some bs \<and> page_spans bs = Inr sp
                \<and> hl = zip (take 3 (heading_candidates (all_sizes sp) b)) [1, 2, 3]
                \<and> sorted_wrt (\<lambda>x y. y < x) (heading_candidates (all_sizes sp) b)
                \<and> set (heading_candidates (all_sizes sp) b) = larger_sizes (all_sizes sp) b
                \<and> distinct (map fst hl)
                \<and> (\<forall>s k. map_of hl s = Some k \<longleftrightarrow>
                      s \<in> larger_sizes (all_sizes sp) b
                      \<and> k = Suc (card {t \<in> larger_sizes (all_sizes sp) b. s < t}) \<and> k \<le> 3))"
proof -
  from determine_font_styles_cases [OF assms]
  consider "bo = None \<and> hl = []"
    | bs sp where "text_blocks p = Some bs" "page_spans bs = Inr sp"
        "bo = Some (select_body_size (size_counts sp) (all_sizes sp))"
        "hl = assign_levels 1 (heading_candidates (all_sizes sp) (select_body_size (size_counts sp) (all_sizes sp)))"
    by blast
  then show ?thesis
  proof cases
    case 1
    then show ?thesis by simp
  next
    case 2
    let ?b = "select_body_size (size_counts sp) (all_sizes sp)"
    let ?cs = "heading_candidates (all_sizes sp) ?b"
    have "hl = zip (take 3 ?cs) [1, 2, 3]" using 2(4) by (simp only: assign_levels_take)
    moreover have "sorted_wrt (\<lambda>x y. y < x) ?cs" by (rule heading_candidates_descending)
    moreover have "set ?cs = larger_sizes (all_sizes sp) ?b" by (rule heading_candidates_set)
    moreover have "distinct (map fst hl)"
      unfolding 2(4) by (rule assign_levels_keys_distinct) (rule heading_candidates_distinct)
    moreover have "\<forall>s k. map_of hl s = Some k \<longleftrightarrow>
        s \<in> larger_sizes (all_sizes sp) ?b
        \<and> k = Suc (card {t \<in> larger_sizes (all_sizes sp) ?b. s < t}) \<and> k \<le> 3"
      unfolding 2(4) by (intro allI) (rule heading_levels_rank)
    ultimately show ?thesis using 2(1,2,3) by auto
  qed
qed

theorem heading_levels_three_largest_witness:
  "determine_font_styles ex_page = Inr (Some 10, [(24, 1), (18, 2), (14, 3)])
   \<and> 13 \<in> larger_sizes (all_sizes ex_spans) 10
   \<and> map_of [(24, 1), (18, 2), (14, 3 :: nat)] (13 :: int) = None
   \<and> (\<forall>s k. map_of [(24, 1), (18, 2), (14, 3)] s = Some k \<longleftrightarrow>
          s \<in> larger_sizes (all_sizes ex_spans) 10
          \<and> k = Suc (card {t \<in> larger_sizes (all_sizes ex_spans) 10. s < t}) \<and> k \<le> 3)"
proof -
  let ?hl = "[(24, 1), (18, 2), (14, 3)] :: (int \<times> nat) list"
  from heading_levels_three_largest [OF ex_styles]
  obtain bs sp where a: "text_blocks ex_page = Some bs" "page_spans bs = Inr sp"
    and r: "\<forall>s k. map_of ?hl s = Some k \<longleftrightarrow>
          s \<in> larger_sizes (all_sizes sp) 10
          \<and> k = Suc (card {t \<in> larger_sizes (all_sizes sp) 10. s < t}) \<and> k \<le> 3"
    unfolding option.case by blast
  have "bs = ex_blocks" using a(1) by (simp add: ex_page_def)
  then have sp: "sp = ex_spans" using a(2) by (simp add: ex_page_spans)
  have "13 \<in> larger_sizes (all_sizes ex_spans) 10"
    by (simp add: larger_sizes_def all_sizes_def ex_spans_def)
  moreover have "map_of ?hl 13 = None" by simp
  ultimately show ?thesis using r ex_styles unfolding sp by blast
qed

section \<open>The average size of a block (C3)\<close>

lemma part_of_span:
  "part_text (span_part body s) = span_chars s"
  "part_size (span_part body s) = span_rounded_size body s"
  by (simp_all add: span_part_def span_chars_def span_rounded_size_def)

lemma fold_scan_span:
  "fold (scan_span body) ss (ps, t, c) =
     (ps @ map (span_part body) ss,
      t + (\<Sum>s\<leftarrow>ss. span_rounded_size body s * int (length (span_chars s))),
      c + (\<Sum>s\<leftarrow>ss. length (span_chars s)))"
  by (induction ss arbitrary: ps t c) (simp_all add: scan_span_def Let_def part_of_span)

lemma scan_line_eq:
  "scan_line body l (bl, t, c) =
     (bl @ [map (span_part body) (line_span_list l)],
      t + (\<Sum>s\<leftarrow>line_span_list l. span_rounded_size body s * int (length (span_chars s))),
      c + (\<Sum>s\<leftarrow>line_span_list l. length (span_chars s)))"
  by (simp add: scan_line_def fold_scan_span line_span_list_def)

lemma fold_scan_line:
  "fold (scan_line body) ls (bl, t, c) =
     (bl @ map (\<lambda>l. map (span_part body) (line_span_list l)) ls,
      t + (\<Sum>s\<leftarrow>concat (map line_span_list ls). span_rounded_size body s * int (length (span_chars s))),
      c + (\<Sum>s\<leftarrow>concat (map line_span_list ls). length (span_chars s)))"
  by (induction ls arbitrary: bl t c) (simp_all add: scan_line_eq)

lemma scan_block_eq:
  "scan_block body b =
     (map (\<lambda>l. map (span_part body) (line_span_list l)) (block_line_list b),
      (\<Sum>s\<leftarrow>block_span_list b. span_rounded_size body s * int (length (span_chars s))),
      (\<Sum>s\<leftarrow>block_span_list b. length (span_chars s)))"
  using fold_scan_line [of body "block_line_list b" "[]" 0 0]
  by (simp add: scan_block_def block_span_list_def block_line_list_def)

lemma block_avg_size_alt:
  "block_avg_size body t c =
     (if c = 0 then body else py_round (of_int t / of_int (int c)))"
  by (simp add: block_avg_size_def)

lemma block_average_raw: "block_average body b = raw_average body b"
  unfolding block_average_def scan_block_eq raw_average_def weighted_average_def Let_def
    prod.case block_avg_size_alt ..

text \<open>
  C3, as stated, fails: lines 156 and 157 weigh a span by \<open>len(text)\<close>, the length of
  the text as it is, not stripped. For the letter A in size 20 followed by ten spaces in
  size 12 the block average is \<open>round(140 / 11) = 13\<close>, where the stripped weights give 20.
\<close>

theorem block_average_stripped_counterexample:
  "block_average 10 ex_padded_block = 13 \<and> stripped_average 10 ex_padded_block = 20"
proof -
  have sp: "block_span_list ex_padded_block = [ex_span ''A'' 20 0, ex_span ''          '' 12 0]"
    by (simp add: ex_padded_block_def ex_text_block_def block_span_list_def block_line_list_def
        line_span_list_def)
  have r: "py_round (140 / 11) = 13" using py_round_div [of 11 140] by simp
  have "raw_average 10 ex_padded_block = 13"
    by (simp add: raw_average_def weighted_average_def sp ex_span_def span_chars_def
        span_rounded_size_def py_round_numeral ascii_def r)
  moreover have "stripped_average 10 ex_padded_block = 20"
    by (simp add: stripped_average_def weighted_average_def sp ex_span_def span_chars_def
        span_rounded_size_def py_round_numeral ascii_def strip_def lstrip_def rstrip_def
        py_isspace_def)
  ultimately show ?thesis by (simp add: block_average_raw)
qed

text \<open>
  C3, amended. When the scan of a block (lines 138 to 160) ends, \<open>total_size\<close> is the sum
  over the spans of the block of the rounded size times the length of the unstripped text,
  \<open>span_count\<close> is the sum of these lengths, and the average size of the block is the
  rounded quotient of the two when \<open>span_count\<close> is positive and the body size when the
  block has no character at all.
\<close>

theorem block_average_raw_length:
  assumes "scan_block body b = (ls, tot, cnt)"
  shows "tot = (\<Sum>s\<leftarrow>block_span_list b. span_rounded_size body s * int (length (span_chars s)))
     \<and> cnt = (\<Sum>s\<leftarrow>block_span_list b. length (span_chars s))
     \<and> block_avg_size body tot cnt = raw_average body b
     \<and> (cnt = 0 \<longrightarrow> block_avg_size body tot cnt = body)
     \<and> (0 < cnt \<longrightarrow> block_avg_size body tot cnt = py_round (of_int tot / of_int (int cnt)))"
proof -
  have t: "tot = (\<Sum>s\<leftarrow>block_span_list b. span_rounded_size body s * int (length (span_chars s)))"
    and c: "cnt = (\<Sum>s\<leftarrow>block_span_list b. length (span_chars s))"
    using assms by (simp_all add: scan_block_eq)
  have "block_avg_size body tot cnt = raw_average body b"
    unfolding t c raw_average_def weighted_average_def Let_def block_avg_size_alt ..
  moreover have "cnt = 0 \<longrightarrow> block_avg_size body tot cnt = body"
    by (simp add: block_avg_size_def)
  moreover have "0 < cnt \<longrightarrow> block_avg_size body tot cnt = py_round (of_int tot / of_int (int cnt))"
    by (simp add: block_avg_size_def)
  ultimately show ?thesis using t c by blast
qed

theorem block_average_raw_length_witness:
  "scan_block 10 ex_padded_block =
     ([[\<lparr>part_text = ascii ''A'', part_size = 20, part_bold = False\<rparr>,
        \<lparr>part_text = ascii ''          '', part_size = 12, part_bold = False\<rparr>]], 140, 11)
   \<and> block_avg_size 10 140 11 = raw_average 10 ex_padded_block
   \<and> block_avg_size 10 140 11 = 13
   \<and> scan_block 10 \<lparr>btype = Some 0, lines = Some [], bbox = None\<rparr> = ([], 0, 0)
   \<and> block_avg_size 10 0 0 = 10"
proof -
  have sp: "block_span_list ex_padded_block = [ex_span ''A'' 20 0, ex_span ''          '' 12 0]"
    by (simp add: ex_padded_block_def ex_text_block_def block_span_list_def block_line_list_def
        line_span_list_def)
  have ll: "block_line_list ex_padded_block = [\<lparr>spans = Some [ex_span ''A'' 20 0, ex_span ''          '' 12 0]\<rparr>]"
    by (simp add: ex_padded_block_def ex_text_block_def block_line_list_def)
  have s1: "scan_block 10 ex_padded_block =
     ([[\<lparr>part_text = ascii ''A'', part_size = 20, part_bold = False\<rparr>,
        \<lparr>part_text = ascii ''          '', part_size = 12, part_bold = False\<rparr>]], 140, 11)"
    by (simp add: scan_block_eq sp ll line_span_list_def span_part_def ex_span_def span_chars_def
        span_rounded_size_def py_round_numeral is_bold_def) (simp add: ascii_def)
  have s2: "scan_block 10 \<lparr>btype = Some 0, lines = Some [], bbox = None\<rparr> = ([], 0, 0)"
    by (simp add: scan_block_def)
  have r: "py_round (140 / 11) = 13" using py_round_div [of 11 140] by simp
  show ?thesis
    using block_average_raw_length [OF s1] block_average_raw_length [OF s2] s1 s2 r
    by simp
qed

section \<open>Flushing the open paragraph\<close>

lemma flush_output: "markdown_output (flush st) = markdown_output st @ flush_fragment st"
  by (simp add: flush_def flush_fragment_def)

lemma flush_paragraph: "current_paragraph (flush st) = []"
  by (simp add: flush_def)

lemma flush_bottom: "last_block_bottom (flush st) = last_block_bottom st"
  by (simp add: flush_def)

lemma flush_fragment_not_blank: "f \<in> set (flush_fragment st) \<Longrightarrow> f \<noteq> []"
  by (auto simp: flush_fragment_def split: if_splits)

lemma no_double_blank_snoc:
  "no_double_blank (fs @ [f]) \<longleftrightarrow>
     no_double_blank fs \<and> (fs \<noteq> [] \<longrightarrow> \<not> (last fs = [] \<and> f = []))"
  by (induction fs rule: no_double_blank.induct) auto

lemma no_double_blank_flush:
  "no_double_blank fs \<Longrightarrow> no_double_blank (fs @ flush_fragment st)"
  by (simp add: flush_fragment_def no_double_blank_snoc)

lemma last_flush:
  "fs \<noteq> [] \<Longrightarrow> last fs \<noteq> [] \<Longrightarrow> last (fs @ flush_fragment st) \<noteq> []"
  by (simp add: flush_fragment_def)

section \<open>The paragraph break\<close>

lemma gap_check_cases:
  "gap_check page_num i body b st =
     (if (0 < page_num \<or> 0 < i) \<and> gap_exceeds body b st then
        (if markdown_output st = [] then Inl IndexError
         else if last (markdown_output st) \<noteq> [] then
           Inr ((flush st)\<lparr>markdown_output := markdown_output st @ flush_fragment st @ [[]]\<rparr>)
         else Inr st)
      else Inr st)"
  by (simp add: gap_check_def gap_exceeds_def Let_def flush_output)


lemma gap_check_suppressed:
  "markdown_output st \<noteq> [] \<Longrightarrow> last (markdown_output st) = [] \<Longrightarrow>
   gap_check page_num i body b st = Inr st"
  by (simp add: gap_check_cases)


lemma gap_check_no_error:
  "markdown_output st \<noteq> [] \<Longrightarrow> \<exists>st1. gap_check page_num i body b st = Inr st1"
  by (simp add: gap_check_cases)

lemma gap_check_result:
  assumes "gap_check page_num i body b st = Inr st1"
  shows "st1 = st \<or>
     (markdown_output st \<noteq> [] \<and> last (markdown_output st) \<noteq> []
      \<and> markdown_output st1 = markdown_output st @ flush_fragment st @ [[]]
      \<and> current_paragraph st1 = [] \<and> last_block_bottom st1 = last_block_bottom st)"
  using assms by (auto simp: gap_check_cases flush_paragraph flush_bottom split: if_splits)

lemma gap_check_no_double_blank:
  assumes "gap_check page_num i body b st = Inr st1" and "no_double_blank (markdown_output st)"
  shows "no_double_blank (markdown_output st1)"
proof -
  from gap_check_result [OF assms(1)] show ?thesis
  proof
    assume "st1 = st"
    then show ?thesis using assms(2) by simp
  next
    assume a: "markdown_output st \<noteq> [] \<and> last (markdown_output st) \<noteq> []
      \<and> markdown_output st1 = markdown_output st @ flush_fragment st @ [[]]
      \<and> current_paragraph st1 = [] \<and> last_block_bottom st1 = last_block_bottom st"
    have "no_double_blank ((markdown_output st @ flush_fragment st) @ [[]])"
      unfolding no_double_blank_snoc
      using a assms(2) by (simp add: no_double_blank_flush last_flush)
    then show ?thesis using a by simp
  qed
qed

lemma gap_check_output_not_Nil:
  assumes "gap_check page_num i body b st = Inr st1" and "markdown_output st \<noteq> []"
  shows "markdown_output st1 \<noteq> []"
  using gap_check_result [OF assms(1)] assms(2) by auto

section \<open>Headings, lines and blocks\<close>

lemma no_double_blank_fragment:
  assumes "no_double_blank fs" and "f \<noteq> []"
  shows "no_double_blank (fs @ flush_fragment st @ [f])"
proof -
  have "no_double_blank ((fs @ flush_fragment st) @ [f])"
    unfolding no_double_blank_snoc using assms by (simp add: no_double_blank_flush)
  then show ?thesis by simp
qed

lemma heading_step_cases:
  "heading_step hl avg ls st =
     (case map_of hl avg of
        None \<Rightarrow> (False, st)
      | Some level \<Rightarrow>
        if heading_text ls \<noteq> [] then
          (True, (flush st)\<lparr>markdown_output :=
             markdown_output st @ flush_fragment st
               @ [replicate level 35 @ [32] @ heading_text ls @ [10]]\<rparr>)
        else (False, st))"
  by (simp add: heading_step_def flush_output split: option.splits)

lemma heading_step_not_heading: "heading_step hl avg ls st = (False, st') \<Longrightarrow> st' = st"
  by (auto simp: heading_step_cases split: option.splits if_splits)

lemma heading_step_heading:
  assumes "heading_step hl avg ls st = (True, st')"
  shows "\<exists>level. map_of hl avg = Some level \<and> heading_text ls \<noteq> []
     \<and> markdown_output st' = markdown_output st @ flush_fragment st
          @ [replicate level 35 @ [32] @ heading_text ls @ [10]]
     \<and> current_paragraph st' = [] \<and> last_block_bottom st' = last_block_bottom st"
  using assms
  by (auto simp: heading_step_cases flush_paragraph flush_bottom split: option.splits if_splits)

lemma heading_step_no_double_blank:
  assumes "heading_step hl avg ls st = (h, st')" and "no_double_blank (markdown_output st)"
  shows "no_double_blank (markdown_output st')"
proof (cases h)
  case True
  then obtain level where
    "markdown_output st' = markdown_output st @ flush_fragment st
          @ [replicate level 35 @ [32] @ heading_text ls @ [10]]"
    using heading_step_heading [of hl avg ls st st'] assms(1) by auto
  then show ?thesis using assms(2) by (simp add: no_double_blank_fragment)
next
  case False
  then show ?thesis using heading_step_not_heading [of hl avg ls st st'] assms by simp
qed

lemma heading_step_output_not_Nil:
  assumes "heading_step hl avg ls st = (h, st')" and "markdown_output st \<noteq> []"
  shows "markdown_output st' \<noteq> []"
  using assms by (auto simp: heading_step_cases split: option.splits if_splits)

lemma process_line_list_item:
  assumes "is_list_item dec (line_text_raw ps)"
  shows "markdown_output (process_line dec ps st) =
           markdown_output st @ flush_fragment st @ [strip (processed_line ps) @ [10]]"
    and "current_paragraph (process_line dec ps st) = []"
    and "last_block_bottom (process_line dec ps st) = last_block_bottom st"
  using assms by (simp_all add: process_line_def flush_output flush_paragraph flush_bottom)

lemma process_line_text:
  assumes "\<not> is_list_item dec (line_text_raw ps)"
  shows "markdown_output (process_line dec ps st) = markdown_output st"
    and "last_block_bottom (process_line dec ps st) = last_block_bottom st"
  using assms by (simp_all add: process_line_def Let_def)

lemma process_line_no_double_blank:
  assumes "no_double_blank (markdown_output st)"
  shows "no_double_blank (markdown_output (process_line dec ps st))"
proof (cases "is_list_item dec (line_text_raw ps)")
  case True
  then show ?thesis
    using assms by (simp add: process_line_list_item(1) no_double_blank_fragment)
next
  case False
  then show ?thesis using assms by (simp add: process_line_text(1))
qed

lemma process_line_output_not_Nil:
  "markdown_output st \<noteq> [] \<Longrightarrow> markdown_output (process_line dec ps st) \<noteq> []"
  by (cases "is_list_item dec (line_text_raw ps)")
     (simp_all add: process_line_list_item(1) process_line_text(1))

lemma process_lines_no_double_blank:
  "no_double_blank (markdown_output st) \<Longrightarrow>
   no_double_blank (markdown_output (process_lines dec ls st))"
  unfolding process_lines_def
  by (induction ls arbitrary: st) (simp_all add: process_line_no_double_blank)

lemma process_lines_output_not_Nil:
  "markdown_output st \<noteq> [] \<Longrightarrow> markdown_output (process_lines dec ls st) \<noteq> []"
  unfolding process_lines_def
  by (induction ls arbitrary: st) (simp_all add: process_line_output_not_Nil)

lemma process_block_skip: "btype b \<noteq> Some 0 \<Longrightarrow> process_block dec pn body hl i b st = Inr st"
  by (simp add: process_block_def)

lemma process_block_text:
  assumes "btype b = Some 0" and "scan_block body b = (ls, tot, cnt)"
  shows "process_block dec pn body hl i b st =
     (case gap_check pn i body b st of
        Inl e \<Rightarrow> Inl e
      | Inr st1 \<Rightarrow>
        (case heading_step hl (block_avg_size body tot cnt) ls st1 of
           (is_heading, st2) \<Rightarrow>
             Inr ((if \<not> is_heading then process_lines dec ls st2 else st2)
                    \<lparr>last_block_bottom := block_bottom b\<rparr>)))"
  using assms by (simp add: process_block_def Let_def split: sum.splits prod.splits)

lemma process_block_invariant:
  assumes "process_block dec pn body hl i b st = Inr st'"
  shows "(no_double_blank (markdown_output st) \<longrightarrow> no_double_blank (markdown_output st'))
     \<and> (markdown_output st \<noteq> [] \<longrightarrow> markdown_output st' \<noteq> [])"
proof (cases "btype b = Some 0")
  case False
  then show ?thesis using assms by (simp add: process_block_skip)
next
  case True
  obtain ls tot cnt where sc: "scan_block body b = (ls, tot, cnt)" by (cases "scan_block body b")
  obtain st1 where g: "gap_check pn i body b st = Inr st1"
    using assms by (auto simp: process_block_text [OF True sc] split: sum.splits)
  obtain h st2 where hs: "heading_step hl (block_avg_size body tot cnt) ls st1 = (h, st2)"
    by (cases "heading_step hl (block_avg_size body tot cnt) ls st1")
  have st': "markdown_output st' = markdown_output (if \<not> h then process_lines dec ls st2 else st2)"
    using assms by (auto simp: process_block_text [OF True sc] g hs)
  show ?thesis
  proof (intro conjI impI)
    assume "no_double_blank (markdown_output st)"
    then have "no_double_blank (markdown_output st1)" by (rule gap_check_no_double_blank [OF g])
    then have "no_double_blank (markdown_output st2)" by (rule heading_step_no_double_blank [OF hs])
    then show "no_double_blank (markdown_output st')"
      by (simp add: st' process_lines_no_double_blank)
  next
    assume "markdown_output st \<noteq> []"
    then have "markdown_output st1 \<noteq> []" by (rule gap_check_output_not_Nil [OF g])
    then have "markdown_output st2 \<noteq> []" by (rule heading_step_output_not_Nil [OF hs])
    then show "markdown_output st' \<noteq> []"
      by (simp add: st' process_lines_output_not_Nil)
  qed
qed

lemma process_block_no_error:
  assumes "markdown_output st \<noteq> []"
  shows "\<exists>st'. process_block dec pn body hl i b st = Inr st'"
proof (cases "btype b = Some 0")
  case False
  then show ?thesis by (simp add: process_block_skip)
next
  case True
  obtain ls tot cnt where sc: "scan_block body b = (ls, tot, cnt)" by (cases "scan_block body b")
  obtain st1 where g: "gap_check pn i body b st = Inr st1"
    using gap_check_no_error [OF assms] by blast
  show ?thesis by (simp add: process_block_text [OF True sc] g split: prod.splits)
qed

lemma process_blocks_invariant:
  "process_blocks dec pn body hl i bs st = Inr st' \<Longrightarrow>
   (no_double_blank (markdown_output st) \<longrightarrow> no_double_blank (markdown_output st'))
     \<and> (markdown_output st \<noteq> [] \<longrightarrow> markdown_output st' \<noteq> [])"
proof (induction bs arbitrary: i st)
  case Nil
  then show ?case by simp
next
  case (Cons b bs)
  then obtain st1 where b: "process_block dec pn body hl i b st = Inr st1"
    and r: "process_blocks dec pn body hl (Suc i) bs st1 = Inr st'"
    by (auto split: sum.splits)
  show ?case using process_block_invariant [OF b] Cons.IH [OF r] by blast
qed

lemma process_blocks_no_error:
  "markdown_output st \<noteq> [] \<Longrightarrow> \<exists>st'. process_blocks dec pn body hl i bs st = Inr st'"
proof (induction bs arbitrary: i st)
  case Nil
  show ?case by simp
next
  case (Cons b bs)
  obtain st1 where b: "process_block dec pn body hl i b st = Inr st1"
    using process_block_no_error [OF Cons.prems] by blast
  have "markdown_output st1 \<noteq> []" using process_block_invariant [OF b] Cons.prems by blast
  then show ?case using Cons.IH [of st1 "Suc i"] by (simp add: b)
qed

section \<open>Pages\<close>

lemma page_marker_not_blank: "page_marker n \<noteq> []"
  by (simp add: page_marker_def)

lemma process_page_skipped:
  "determine_font_styles p = Inr (None, hl) \<Longrightarrow> process_page dec n p st = Inr st"
  by (simp add: process_page_def)

lemma process_page_unsorted:
  "determine_font_styles p = Inr (Some body, hl) \<Longrightarrow> sorted_blocks p = None \<Longrightarrow>
   process_page dec n p st = Inl AttributeError"
  by (simp add: process_page_def)

lemma process_page_processed:
  assumes "determine_font_styles p = Inr (Some body, hl)" and "sorted_blocks p = Some blocks"
  shows "\<exists>st2. process_blocks dec n body hl 0 blocks
              (st\<lparr>markdown_output := markdown_output st @ [page_marker n],
                  current_paragraph := []\<rparr>) = Inr st2
     \<and> process_page dec n p st = Inr (flush st2)"
proof -
  let ?st1 = "st\<lparr>markdown_output := markdown_output st @ [page_marker n], current_paragraph := []\<rparr>"
  have "markdown_output ?st1 \<noteq> []" by simp
  then obtain st2 where b: "process_blocks dec n body hl 0 blocks ?st1 = Inr st2"
    using process_blocks_no_error by blast
  then show ?thesis using assms by (simp add: process_page_def)
qed

lemma process_page_cases:
  "(\<exists>e. determine_font_styles p = Inl e \<and> process_page dec n p st = Inl e)
   \<or> process_page dec n p st = Inl AttributeError
   \<or> process_page dec n p st = Inr st
   \<or> (\<exists>body hl blocks st2. determine_font_styles p = Inr (Some body, hl)
        \<and> sorted_blocks p = Some blocks
        \<and> process_blocks dec n body hl 0 blocks
              (st\<lparr>markdown_output := markdown_output st @ [page_marker n],
                  current_paragraph := []\<rparr>) = Inr st2
        \<and> process_page dec n p st = Inr (flush st2))"
proof (cases "determine_font_styles p")
  case (Inl e)
  then show ?thesis by (simp add: process_page_def)
next
  case (Inr r)
  obtain bo hl where r: "r = (bo, hl)" by (cases r)
  show ?thesis
  proof (cases bo)
    case None
    then show ?thesis using Inr r by (simp add: process_page_skipped)
  next
    case (Some body)
    note d = Inr [unfolded r Some]
    show ?thesis
    proof (cases "sorted_blocks p")
      case None
      then show ?thesis using d by (simp add: process_page_unsorted)
    next
      case (Some blocks)
      show ?thesis using process_page_processed [OF d Some, of dec n st] d Some by blast
    qed
  qed
qed

lemma process_page_invariant:
  assumes "process_page dec n p st = Inr st'"
  shows "(no_double_blank (markdown_output st) \<longrightarrow> no_double_blank (markdown_output st'))
     \<and> (current_paragraph st = [] \<longrightarrow> current_paragraph st' = [])"
proof -
  from process_page_cases [of p dec n st]
  consider "process_page dec n p st = Inr st"
    | body hl blocks st2 where "process_blocks dec n body hl 0 blocks
              (st\<lparr>markdown_output := markdown_output st @ [page_marker n],
                  current_paragraph := []\<rparr>) = Inr st2"
        "process_page dec n p st = Inr (flush st2)"
    using assms by auto
  then show ?thesis
  proof cases
    case 1
    then show ?thesis using assms by simp
  next
    case 2
    have st': "st' = flush st2" using 2(2) assms by simp
    have "no_double_blank (markdown_output st) \<longrightarrow> no_double_blank (markdown_output st2)"
      using process_blocks_invariant [OF 2(1)]
      by (simp add: no_double_blank_snoc page_marker_not_blank)
    then show ?thesis
      by (simp add: st' flush_output flush_paragraph no_double_blank_flush)
  qed
qed

lemma process_page_error:
  "process_page dec n p st = Inl e \<Longrightarrow> determine_font_styles p = Inl e \<or> e = AttributeError"
  using process_page_cases [of p dec n st] by auto

lemma process_pages_invariant:
  "process_pages dec n ps st = Inr st' \<Longrightarrow>
   (no_double_blank (markdown_output st) \<longrightarrow> no_double_blank (markdown_output st'))
     \<and> (current_paragraph st = [] \<longrightarrow> current_paragraph st' = [])"
proof (induction ps arbitrary: n st)
  case Nil
  then show ?case by simp
next
  case (Cons p ps)
  then obtain st1 where p: "process_page dec n p st = Inr st1"
    and r: "process_pages dec (Suc n) ps st1 = Inr st'"
    by (auto split: sum.splits)
  show ?case using process_page_invariant [OF p] Cons.IH [OF r] by blast
qed

lemma process_pages_error:
  "process_pages dec n ps st = Inl e \<Longrightarrow>
   e = AttributeError \<or> (\<exists>p \<in> set ps. determine_font_styles p = Inl e)"
proof (induction ps arbitrary: n st)
  case Nil
  then show ?case by simp
next
  case (Cons p ps)
  show ?case
  proof (cases "process_page dec n p st")
    case (Inl e')
    then show ?thesis using Cons.prems process_page_error [of dec n p st e'] by auto
  next
    case (Inr st1)
    then show ?thesis using Cons by auto
  qed
qed

lemma convert_fragments_no_double_blank:
  "convert_fragments dec doc = Inr frags \<Longrightarrow> no_double_blank frags"
proof -
  assume a: "convert_fragments dec doc = Inr frags"
  then obtain st where st: "process_pages dec 0 doc initial_state = Inr st"
    and f: "frags = markdown_output st"
    by (auto simp: convert_fragments_def split: sum.splits)
  have "no_double_blank (markdown_output initial_state)" by (simp add: initial_state_def)
  then show ?thesis using process_pages_invariant [OF st] f by simp
qed

section \<open>The sample documents, evaluated\<close>

lemmas text_eval = strip_def lstrip_def rstrip_def ascii_def py_isspace_def endswith_def
  startswith_def

lemmas list_item_eval = is_list_item_def marker_at_def dot_space_def ascii_digit_def
  is_bullet_def is_ascii_letter_def

lemmas scan_eval = scan_block_def scan_line_def scan_span_def span_part_def ex_text_block_def
  ex_span_def py_round_numeral is_bold_def block_avg_size_def

lemmas block_eval = process_block_def gap_check_def heading_step_def heading_text_def
  process_lines_def process_line_def line_text_raw_def processed_line_def add_span_def
  flush_def block_top_def block_bottom_def gap_threshold_10 round_double_28 round_double_8

lemma ex_gap_styles: "determine_font_styles ex_gap_page = Inr (Some 10, [])"
proof -
  let ?sp = "[(10, False, ascii ''Hello''), (10, False, ascii '' ''), (10, False, ascii ''World'')]"
  have t: "text_blocks ex_gap_page = Some ex_gap_blocks" by (simp add: ex_gap_page_def)
  have sp: "page_spans ex_gap_blocks = Inr ?sp"
    by (simp add: page_spans_def ex_gap_blocks_def ex_text_block_def ex_span_def
        block_spans_def line_spans_def read_span_def py_round_numeral is_bold_def)
  have sc: "size_counts ?sp = [(10, 10)]"
    by (simp add: size_counts_def text_eval)
  have b: "select_body_size (size_counts ?sp) (all_sizes ?sp) = 10"
    by (simp add: sc select_body_size_def most_common1_def)
  have hl: "assign_levels 1 (heading_candidates (all_sizes ?sp) 10) = []"
    by (simp add: all_sizes_def heading_candidates_def)
  show ?thesis
    using determine_font_styles_spans [OF t sp] by (simp only: b hl) simp
qed



lemma ex_gap_fragments:
  "convert_fragments ascii_digit [ex_gap_page] =
     Inr [page_marker 0, ascii ''Hello'' @ [10], [], ascii ''World'' @ [10]]"
  by (simp add: convert_fragments_def process_page_def ex_gap_styles initial_state_def)
     (simp add: ex_gap_page_def ex_gap_blocks_def scan_eval block_eval Let_def list_item_eval
      page_marker_def text_eval)

section \<open>The paragraph break (C4)\<close>







section \<open>No blank fragment after a blank fragment (C10)\<close>

text \<open>
  C10. When the last fragment is the empty string the check of lines 174 to 181 changes
  nothing. A check that returns keeps the fragments free of two neighbouring empty
  strings, and so do all other steps: the fragments of a converted document never hold
  two empty strings side by side.
\<close>

theorem gap_check_never_doubles_blank:
  "(markdown_output st \<noteq> [] \<and> last (markdown_output st) = [] \<longrightarrow>
      gap_check page_num i body b st = Inr st)
   \<and> (gap_check page_num i body b st = Inr st1 \<and> no_double_blank (markdown_output st) \<longrightarrow>
        no_double_blank (markdown_output st1))
   \<and> (convert_fragments dec doc = Inr frags \<longrightarrow> no_double_blank frags)"
  using gap_check_suppressed [of st page_num i body b]
    gap_check_no_double_blank [of page_num i body b st st1]
    convert_fragments_no_double_blank [of dec doc frags]
  by blast

theorem gap_check_never_doubles_blank_witness:
  "markdown_output ex_gap_state \<noteq> [] \<and> last (markdown_output ex_gap_state) = []
   \<and> gap_check 0 2 10 (ex_gap_blocks ! 2) ex_gap_state = Inr ex_gap_state
   \<and> no_double_blank (markdown_output ex_gap_state)
   \<and> convert_fragments ascii_digit [ex_gap_page]
       = Inr [page_marker 0, ascii ''Hello'' @ [10], [], ascii ''World'' @ [10]]
   \<and> no_double_blank [page_marker 0, ascii ''Hello'' @ [10], [], ascii ''World'' @ [10]]"
proof -
  have h: "markdown_output ex_gap_state \<noteq> [] \<and> last (markdown_output ex_gap_state) = []"
    by (simp add: ex_gap_state_def)
  have n: "no_double_blank (markdown_output ex_gap_state)"
    by (simp add: ex_gap_state_def page_marker_not_blank)
  note t = gap_check_never_doubles_blank
    [of ex_gap_state 0 2 10 "ex_gap_blocks ! 2" ex_gap_state ascii_digit "[ex_gap_page]"
      "[page_marker 0, ascii ''Hello'' @ [10], [], ascii ''World'' @ [10]]"]
  show ?thesis using t h n ex_gap_fragments by blast
qed

section \<open>One open paragraph, flushed before a fragment (C7)\<close>

lemma process_page_paragraph_independent:
  assumes "determine_font_styles p = Inr (Some body, hl)" and "sorted_blocks p = Some blocks"
  shows "process_page dec n p (st\<lparr>current_paragraph := cp\<rparr>) = process_page dec n p st"
  using assms by (simp add: process_page_def)

text \<open>
  C7. The state of the conversion holds one paragraph under construction, the string
  \<open>current_paragraph\<close>. A heading fragment and a list-item fragment are appended after the
  fragment of the open paragraph, if there is one, and leave no paragraph open. At the end
  of a page that is processed the open paragraph is flushed in the same way, the result
  does not depend on the paragraph that was open when the page began, and over any
  sequence of pages a conversion that starts with no open paragraph ends with none.
\<close>

theorem open_paragraph_flushed:
  "(heading_step hl avg ls st = (True, st') \<longrightarrow>
      (\<exists>level. map_of hl avg = Some level
         \<and> markdown_output st' = markdown_output st @ flush_fragment st
              @ [replicate level 35 @ [32] @ heading_text ls @ [10]]
         \<and> current_paragraph st' = []))
   \<and> (is_list_item dec (line_text_raw ps) \<longrightarrow>
         markdown_output (process_line dec ps st)
           = markdown_output st @ flush_fragment st @ [strip (processed_line ps) @ [10]]
         \<and> current_paragraph (process_line dec ps st) = [])
   \<and> (determine_font_styles p = Inr (Some body, phl) \<and> sorted_blocks p = Some blocks \<longrightarrow>
         (\<exists>st2. process_blocks dec n body phl 0 blocks
                   (st\<lparr>markdown_output := markdown_output st @ [page_marker n],
                       current_paragraph := []\<rparr>) = Inr st2
            \<and> process_page dec n p st
                 = Inr (st2\<lparr>markdown_output := markdown_output st2 @ flush_fragment st2,
                           current_paragraph := []\<rparr>)
            \<and> process_page dec n p (st\<lparr>current_paragraph := cp\<rparr>) = process_page dec n p st))
   \<and> (process_pages dec n doc st = Inr st3 \<and> current_paragraph st = [] \<longrightarrow>
         current_paragraph st3 = [])"
proof (intro conjI impI)
  assume "heading_step hl avg ls st = (True, st')"
  from heading_step_heading [OF this]
  show "\<exists>level. map_of hl avg = Some level
         \<and> markdown_output st' = markdown_output st @ flush_fragment st
              @ [replicate level 35 @ [32] @ heading_text ls @ [10]]
         \<and> current_paragraph st' = []"
    by blast
next
  assume "is_list_item dec (line_text_raw ps)"
  then show "markdown_output (process_line dec ps st)
           = markdown_output st @ flush_fragment st @ [strip (processed_line ps) @ [10]]"
    by (rule process_line_list_item(1))
next
  assume "is_list_item dec (line_text_raw ps)"
  then show "current_paragraph (process_line dec ps st) = []"
    by (rule process_line_list_item(2))
next
  assume a: "determine_font_styles p = Inr (Some body, phl) \<and> sorted_blocks p = Some blocks"
  then have d: "determine_font_styles p = Inr (Some body, phl)"
    and s: "sorted_blocks p = Some blocks" by simp_all
  obtain st2 where b: "process_blocks dec n body phl 0 blocks
                   (st\<lparr>markdown_output := markdown_output st @ [page_marker n],
                       current_paragraph := []\<rparr>) = Inr st2"
    and pp: "process_page dec n p st = Inr (flush st2)"
    using process_page_processed [OF d s, of dec n st] by blast
  have f: "flush st2 = st2\<lparr>markdown_output := markdown_output st2 @ flush_fragment st2,
                           current_paragraph := []\<rparr>"
    by (simp add: flush_def flush_fragment_def)
  show "\<exists>st2. process_blocks dec n body phl 0 blocks
                   (st\<lparr>markdown_output := markdown_output st @ [page_marker n],
                       current_paragraph := []\<rparr>) = Inr st2
            \<and> process_page dec n p st
                 = Inr (st2\<lparr>markdown_output := markdown_output st2 @ flush_fragment st2,
                           current_paragraph := []\<rparr>)
            \<and> process_page dec n p (st\<lparr>current_paragraph := cp\<rparr>) = process_page dec n p st"
    using b pp f process_page_paragraph_independent [OF d s, where st = st and cp = cp and dec = dec and n = n] by auto
next
  assume "process_pages dec n doc st = Inr st3 \<and> current_paragraph st = []"
  then show "current_paragraph st3 = []"
    using process_pages_invariant [of dec n doc st st3] by blast
qed

lemma ex_open_heading:
  "heading_step [(24, 1)] 24 [[\<lparr>part_text = ascii ''Title'', part_size = 24, part_bold = True\<rparr>]]
     ex_open_state
   = (True, \<lparr>markdown_output = [page_marker 0, ascii ''Hello'' @ [10], ascii ''# Title'' @ [10]],
             last_block_bottom = 12, current_paragraph = []\<rparr>)"
  by (simp add: heading_step_def heading_text_def flush_def ex_open_state_def text_eval)

lemma ex_item_is_list_item:
  "is_list_item ascii_digit
     (line_text_raw [\<lparr>part_text = ascii ''- item '', part_size = 10, part_bold = False\<rparr>])"
  by (simp add: line_text_raw_def list_item_eval text_eval)

lemma ex_gap_page_result:
  "process_page ascii_digit 0 ex_gap_page initial_state
   = Inr \<lparr>markdown_output = [page_marker 0, ascii ''Hello'' @ [10], [], ascii ''World'' @ [10]],
          last_block_bottom = 92, current_paragraph = []\<rparr>"
  by (simp add: process_page_def ex_gap_styles initial_state_def)
     (simp add: ex_gap_page_def ex_gap_blocks_def scan_eval block_eval Let_def list_item_eval
      page_marker_def text_eval)

theorem open_paragraph_flushed_witness:
  "heading_step [(24, 1)] 24 [[\<lparr>part_text = ascii ''Title'', part_size = 24, part_bold = True\<rparr>]]
     ex_open_state
   = (True, \<lparr>markdown_output = [page_marker 0, ascii ''Hello'' @ [10], ascii ''# Title'' @ [10]],
             last_block_bottom = 12, current_paragraph = []\<rparr>)
   \<and> flush_fragment ex_open_state = [ascii ''Hello'' @ [10]]
   \<and> is_list_item ascii_digit
        (line_text_raw [\<lparr>part_text = ascii ''- item '', part_size = 10, part_bold = False\<rparr>])
   \<and> markdown_output (process_line ascii_digit
        [\<lparr>part_text = ascii ''- item '', part_size = 10, part_bold = False\<rparr>] ex_open_state)
      = [page_marker 0, ascii ''Hello'' @ [10], ascii ''- item'' @ [10]]
   \<and> current_paragraph (process_line ascii_digit
        [\<lparr>part_text = ascii ''- item '', part_size = 10, part_bold = False\<rparr>] ex_open_state) = []
   \<and> determine_font_styles ex_gap_page = Inr (Some 10, [])
   \<and> sorted_blocks ex_gap_page = Some ex_gap_blocks
   \<and> process_page ascii_digit 0 ex_gap_page (initial_state\<lparr>current_paragraph := ascii ''Hello''\<rparr>)
      = process_page ascii_digit 0 ex_gap_page initial_state
   \<and> process_pages ascii_digit 0 [ex_gap_page] initial_state
      = Inr \<lparr>markdown_output = [page_marker 0, ascii ''Hello'' @ [10], [], ascii ''World'' @ [10]],
             last_block_bottom = 92, current_paragraph = []\<rparr>
   \<and> current_paragraph initial_state = []"
proof -
  let ?title = "[[\<lparr>part_text = ascii ''Title'', part_size = 24, part_bold = True\<rparr>]]"
  let ?item = "[\<lparr>part_text = ascii ''- item '', part_size = 10, part_bold = False\<rparr>]"
  let ?res = "\<lparr>markdown_output = [page_marker 0, ascii ''Hello'' @ [10], [], ascii ''World'' @ [10]],
             last_block_bottom = 92, current_paragraph = []\<rparr>"
  have f: "flush_fragment ex_open_state = [ascii ''Hello'' @ [10]]"
    by (simp add: flush_fragment_def ex_open_state_def text_eval)
  have pl: "strip (processed_line ?item) = ascii ''- item''"
    by (simp add: processed_line_def add_span_def text_eval)
  have s: "sorted_blocks ex_gap_page = Some ex_gap_blocks" by (simp add: ex_gap_page_def)
  have pp: "process_pages ascii_digit 0 [ex_gap_page] initial_state = Inr ?res"
    by (simp add: ex_gap_page_result)
  have i0: "current_paragraph initial_state = []" by (simp add: initial_state_def)
  note t = open_paragraph_flushed
    [where hl = "[(24, 1)]" and avg = 24 and ls = ?title and st = ex_open_state
       and dec = ascii_digit and ps = ?item]
  note u = open_paragraph_flushed
    [where dec = ascii_digit and p = ex_gap_page and body = 10 and phl = "[]"
       and blocks = ex_gap_blocks and n = 0 and st = initial_state and cp = "ascii ''Hello''"
       and doc = "[ex_gap_page]" and ?st3.0 = ?res]
  have "markdown_output (process_line ascii_digit ?item ex_open_state)
      = [page_marker 0, ascii ''Hello'' @ [10], ascii ''- item'' @ [10]]"
    using t ex_item_is_list_item f pl by (simp add: ex_open_state_def)
  moreover have "current_paragraph (process_line ascii_digit ?item ex_open_state) = []"
    using t ex_item_is_list_item by blast
  moreover have "process_page ascii_digit 0 ex_gap_page (initial_state\<lparr>current_paragraph := ascii ''Hello''\<rparr>)
      = process_page ascii_digit 0 ex_gap_page initial_state"
    using u ex_gap_styles s by blast
  moreover have "current_paragraph ?res = []"
    using u pp i0 by blast
  ultimately show ?thesis using ex_open_heading f ex_item_is_list_item ex_gap_styles s pp i0
    by simp
qed

section \<open>A heading size without text (C8)\<close>

text \<open>
  C8. A text block whose average size has a heading level, but whose spans hold nothing
  but whitespace, gets no heading fragment: the heading step leaves the state as it is and
  reports no heading, and the block goes through the paragraph break and the loop over its
  lines, exactly as it does under an empty heading map.
\<close>

theorem empty_heading_falls_through:
  assumes "btype b = Some 0" and "scan_block body b = (ls, tot, cnt)"
    and "map_of hl (block_avg_size body tot cnt) = Some level" and "heading_text ls = []"
  shows "heading_step hl (block_avg_size body tot cnt) ls st1 = (False, st1)
     \<and> process_block dec pn body hl i b st =
         (case gap_check pn i body b st of
            Inl e \<Rightarrow> Inl e
          | Inr st2 \<Rightarrow> Inr ((process_lines dec ls st2)\<lparr>last_block_bottom := block_bottom b\<rparr>))
     \<and> process_block dec pn body hl i b st = process_block dec pn body [] i b st"
proof -
  have h: "heading_step hl (block_avg_size body tot cnt) ls s = (False, s)" for s
    using assms(3,4) by (simp add: heading_step_def)
  have e: "heading_step [] (block_avg_size body tot cnt) ls s = (False, s)" for s
    by (simp add: heading_step_def)
  have 1: "process_block dec pn body hl i b st =
         (case gap_check pn i body b st of
            Inl e \<Rightarrow> Inl e
          | Inr st2 \<Rightarrow> Inr ((process_lines dec ls st2)\<lparr>last_block_bottom := block_bottom b\<rparr>))"
    by (simp add: process_block_text [OF assms(1,2)] h split: sum.splits)
  have 2: "process_block dec pn body [] i b st =
         (case gap_check pn i body b st of
            Inl e \<Rightarrow> Inl e
          | Inr st2 \<Rightarrow> Inr ((process_lines dec ls st2)\<lparr>last_block_bottom := block_bottom b\<rparr>))"
    by (simp add: process_block_text [OF assms(1,2)] e split: sum.splits)
  show ?thesis using h 1 2 by simp
qed

theorem empty_heading_falls_through_witness:
  "btype ex_blank_block = Some 0
   \<and> scan_block 10 ex_blank_block
       = ([[\<lparr>part_text = ascii ''  '', part_size = 24, part_bold = False\<rparr>]], 48, 2)
   \<and> map_of [(24, 1 :: nat)] (block_avg_size 10 48 2) = Some 1
   \<and> heading_text [[\<lparr>part_text = ascii ''  '', part_size = 24, part_bold = False\<rparr>]] = []
   \<and> process_block ascii_digit 0 10 [(24, 1)] 1 ex_blank_block ex_open_state
       = process_block ascii_digit 0 10 [] 1 ex_blank_block ex_open_state
   \<and> process_block ascii_digit 0 10 [] 1 ex_blank_block ex_open_state
       = Inr \<lparr>markdown_output = [page_marker 0, ascii ''Hello'' @ [10], []],
              last_block_bottom = 44, current_paragraph = []\<rparr>"
proof -
  let ?ls = "[[\<lparr>part_text = ascii ''  '', part_size = 24, part_bold = False\<rparr>]]"
  have t: "btype ex_blank_block = Some 0" by (simp add: ex_blank_block_def ex_text_block_def)
  have sc: "scan_block 10 ex_blank_block = (?ls, 48, 2)"
    by (simp add: ex_blank_block_def scan_eval Let_def) (simp add: ascii_def)
  have av: "block_avg_size 10 48 2 = 24" by (simp add: block_avg_size_def py_round_numeral)
  have m: "map_of [(24, 1 :: nat)] (block_avg_size 10 48 2) = Some 1" by (simp add: av)
  have ht: "heading_text ?ls = []" by (simp add: heading_text_def text_eval)
  have res: "process_block ascii_digit 0 10 [] 1 ex_blank_block ex_open_state
       = Inr \<lparr>markdown_output = [page_marker 0, ascii ''Hello'' @ [10], []],
              last_block_bottom = 44, current_paragraph = []\<rparr>"
    by (simp add: ex_blank_block_def ex_open_state_def scan_eval block_eval Let_def
        list_item_eval page_marker_def text_eval)
  have eq: "process_block ascii_digit 0 10 [(24, 1)] 1 ex_blank_block ex_open_state
       = process_block ascii_digit 0 10 [] 1 ex_blank_block ex_open_state"
    using empty_heading_falls_through [OF t sc m ht] by blast
  show ?thesis by (intro conjI) (rule t sc m ht eq res)+
qed

section \<open>Bold spans (C9)\<close>

text \<open>
  C9, as stated, fails: the source wraps a bold span only when the line so far does not
  end with the marker and the text of the span does not begin with it. A bold span with
  the text \<open>**x\<close> at the start of a line is left as it is, where the rule of the
  specification wraps it.
\<close>

theorem bold_wrapping_counterexample:
  "processed_line (map (span_part 10) [ex_span ''**x'' 10 16]) = ascii ''**x''
   \<and> claimed_line (map (span_part 10) [ex_span ''**x'' 10 16]) = ascii ''****x**''"
  by (simp add: processed_line_def claimed_line_def add_span_def add_span_claimed_def
      span_part_def ex_span_def is_bold_def text_eval)

text \<open>
  C9, amended. A span is added to a line with the marker on both sides exactly when it is
  bold, the line so far does not end with the marker and the text of the span does not
  begin with it; otherwise its text is added as it is. The spans Hello (not bold) and
  World (bold) give \<open>Hello **World**\<close>, the bold spans A and B give \<open>**A**B\<close>.
\<close>

theorem bold_wrapping:
  "processed_line (ps @ [p]) =
     (if part_bold p \<and> \<not> endswith (processed_line ps) [42, 42]
         \<and> \<not> startswith (part_text p) [42, 42]
      then processed_line ps @ [42, 42] @ part_text p @ [42, 42]
      else processed_line ps @ part_text p)
   \<and> processed_line [] = []
   \<and> processed_line (map (span_part 10) [ex_span ''Hello '' 10 0, ex_span ''World'' 10 16])
       = ascii ''Hello **World**''
   \<and> processed_line (map (span_part 10) [ex_span ''A'' 10 16, ex_span ''B'' 10 16])
       = ascii ''**A**B''"
proof (intro conjI)
  show "processed_line (ps @ [p]) =
     (if part_bold p \<and> \<not> endswith (processed_line ps) [42, 42]
         \<and> \<not> startswith (part_text p) [42, 42]
      then processed_line ps @ [42, 42] @ part_text p @ [42, 42]
      else processed_line ps @ part_text p)"
    by (simp add: processed_line_def add_span_def)
  show "processed_line [] = []" by (simp add: processed_line_def)
  show "processed_line (map (span_part 10) [ex_span ''Hello '' 10 0, ex_span ''World'' 10 16])
       = ascii ''Hello **World**''"
    by (simp add: processed_line_def add_span_def span_part_def ex_span_def is_bold_def text_eval)
  show "processed_line (map (span_part 10) [ex_span ''A'' 10 16, ex_span ''B'' 10 16])
       = ascii ''**A**B''"
    by (simp add: processed_line_def add_span_def span_part_def ex_span_def is_bold_def text_eval)
qed

theorem bold_wrapping_witness:
  "processed_line ([\<lparr>part_text = ascii ''A'', part_size = 10, part_bold = True\<rparr>]
      @ [\<lparr>part_text = ascii ''B'', part_size = 10, part_bold = True\<rparr>]) = ascii ''**A**B''
   \<and> processed_line ([] @ [\<lparr>part_text = ascii ''A'', part_size = 10, part_bold = True\<rparr>])
       = ascii ''**A**''"
proof -
  let ?a = "\<lparr>part_text = ascii ''A'', part_size = 10, part_bold = True\<rparr>"
  let ?b = "\<lparr>part_text = ascii ''B'', part_size = 10, part_bold = True\<rparr>"
  have a: "processed_line ([] @ [?a]) = ascii ''**A**''"
    using bold_wrapping [of "[]" ?a] by (simp add: text_eval)
  then have "processed_line [?a] = ascii ''**A**''" by simp
  then have "processed_line ([?a] @ [?b]) = ascii ''**A**B''"
    using bold_wrapping [of "[?a]" ?b] by (simp add: text_eval)
  then show ?thesis using a by simp
qed

section \<open>Pages without spans and spans without keys\<close>

lemma collect_ok:
  "(\<forall>x\<in>set xs. \<exists>ys. f x = Inr ys \<and> length ys = g x) \<Longrightarrow>
   \<exists>zs. collect f xs = Inr zs \<and> length zs = sum_list (map g xs)"
proof (induction xs)
  case Nil
  show ?case by simp
next
  case (Cons x xs)
  obtain ys where y: "f x = Inr ys" "length ys = g x" using Cons.prems by auto
  obtain zs where z: "collect f xs = Inr zs" "length zs = sum_list (map g xs)"
    using Cons by auto
  show ?case by (simp add: y z)
qed

lemma collect_error:
  assumes "\<forall>x\<in>set xs. (\<exists>ys. f x = Inr ys) \<or> f x = Inl KeyError"
    and "\<exists>x\<in>set xs. f x = Inl KeyError"
  shows "collect f xs = Inl KeyError"
  using assms
proof (induction xs)
  case Nil
  then show ?case by simp
next
  case (Cons x xs)
  show ?case
  proof (cases "f x")
    case (Inl e)
    then show ?thesis using Cons.prems(1) by auto
  next
    case (Inr ys)
    then have "\<exists>x\<in>set xs. f x = Inl KeyError" using Cons.prems(2) by auto
    then have "collect f xs = Inl KeyError" using Cons by simp
    then show ?thesis by (simp add: Inr)
  qed
qed

lemma read_span_cases:
  "read_span s = (if complete_span s
     then Inr (py_round (the (span_size s)), is_bold (the (span_flags s)), the (span_text s))
     else Inl KeyError)"
  by (auto simp: read_span_def complete_span_def split: option.splits)

lemma line_spans_complete:
  assumes "complete_line l"
  shows "\<exists>sp. line_spans l = Inr sp \<and> length sp = length (line_span_list l)"
proof -
  obtain ss where ss: "spans l = Some ss" "list_all complete_span ss"
    using assms by (auto simp: complete_line_def split: option.splits)
  let ?f = "\<lambda>s. case read_span s of Inl e \<Rightarrow> Inl e | Inr r \<Rightarrow> Inr [r]"
  have "\<forall>s\<in>set ss. \<exists>ys. ?f s = Inr ys \<and> length ys = (\<lambda>s. 1) s"
    using ss(2) by (auto simp: list_all_iff read_span_cases)
  from collect_ok [OF this] show ?thesis
    by (simp add: line_spans_def ss(1) line_span_list_def sum_list_triv)
qed

lemma line_spans_incomplete: "\<not> complete_line l \<Longrightarrow> line_spans l = Inl KeyError"
proof (cases "spans l")
  case None
  then show ?thesis by (simp add: line_spans_def)
next
  case (Some ss)
  assume "\<not> complete_line l"
  then have n: "\<exists>s\<in>set ss. \<not> complete_span s"
    by (simp add: complete_line_def Some list_all_iff)
  let ?f = "\<lambda>s. case read_span s of Inl e \<Rightarrow> Inl e | Inr r \<Rightarrow> Inr [r]"
  have "\<forall>s\<in>set ss. (\<exists>ys. ?f s = Inr ys) \<or> ?f s = Inl KeyError"
    by (simp add: read_span_cases)
  moreover have "\<exists>s\<in>set ss. ?f s = Inl KeyError" using n by (auto simp: read_span_cases)
  ultimately have "collect ?f ss = Inl KeyError" by (rule collect_error)
  then show ?thesis by (simp add: line_spans_def Some)
qed

lemma block_spans_complete:
  assumes "complete_block b"
  shows "\<exists>sp. block_spans b = Inr sp
     \<and> length sp = (if btype b = Some 0 then length (block_span_list b) else 0)"
proof -
  obtain t where t: "btype b = Some t"
    using assms by (auto simp: complete_block_def split: option.splits)
  show ?thesis
  proof (cases "t = 0")
    case False
    then show ?thesis by (simp add: block_spans_def t)
  next
    case True
    then obtain ls where ls: "lines b = Some ls" "list_all complete_line ls"
      using assms t by (auto simp: complete_block_def split: option.splits)
    have "\<forall>l\<in>set ls. \<exists>ys. line_spans l = Inr ys \<and> length ys = (\<lambda>l. length (line_span_list l)) l"
      using ls(2) by (auto simp: list_all_iff line_spans_complete)
    from collect_ok [OF this] show ?thesis
      by (simp add: block_spans_def t True ls(1) block_span_list_def block_line_list_def
          length_concat comp_def)
  qed
qed

lemma block_spans_incomplete: "\<not> complete_block b \<Longrightarrow> block_spans b = Inl KeyError"
proof (cases "btype b")
  case None
  then show ?thesis by (simp add: block_spans_def)
next
  case (Some t)
  assume n: "\<not> complete_block b"
  then have t: "t = 0" by (auto simp: complete_block_def Some split: if_splits)
  show ?thesis
  proof (cases "lines b")
    case None
    then show ?thesis by (simp add: block_spans_def Some t)
  next
    case ls: (Some ls)
    have "\<exists>l\<in>set ls. \<not> complete_line l"
      using n by (simp add: complete_block_def Some t ls list_all_iff)
    then have "\<exists>l\<in>set ls. line_spans l = Inl KeyError"
      using line_spans_incomplete by blast
    moreover have "\<forall>l\<in>set ls. (\<exists>ys. line_spans l = Inr ys) \<or> line_spans l = Inl KeyError"
      using line_spans_complete line_spans_incomplete by blast
    ultimately have "collect line_spans ls = Inl KeyError" by (rule collect_error [rotated])
    then show ?thesis by (simp add: block_spans_def Some t ls)
  qed
qed

lemma page_spans_complete:
  assumes "list_all complete_block bs"
  shows "\<exists>sp. page_spans bs = Inr sp \<and> length sp = length (text_span_list bs)"
proof -
  let ?g = "\<lambda>b. if btype b = Some 0 then length (block_span_list b) else 0"
  have "\<forall>b\<in>set bs. \<exists>ys. block_spans b = Inr ys \<and> length ys = ?g b"
    using assms by (auto simp: list_all_iff block_spans_complete)
  from collect_ok [OF this] obtain sp where sp: "page_spans bs = Inr sp"
    "length sp = sum_list (map ?g bs)"
    by (auto simp: page_spans_def)
  have "sum_list (map ?g bs) = length (text_span_list bs)"
    by (induction bs) (simp_all add: text_span_list_def)
  then show ?thesis using sp by simp
qed

lemma page_spans_incomplete:
  assumes "\<not> list_all complete_block bs"
  shows "page_spans bs = Inl KeyError"
proof -
  have "\<exists>b\<in>set bs. \<not> complete_block b"
    using assms by (simp add: list_all_iff)
  then have "\<exists>b\<in>set bs. block_spans b = Inl KeyError"
    using block_spans_incomplete by blast
  moreover have "\<forall>b\<in>set bs. (\<exists>ys. block_spans b = Inr ys) \<or> block_spans b = Inl KeyError"
    using block_spans_complete block_spans_incomplete by blast
  ultimately show ?thesis unfolding page_spans_def by (rule collect_error [rotated])
qed

lemma determine_font_styles_incomplete:
  assumes "text_blocks p = Some bs" and "\<not> list_all complete_block bs"
  shows "determine_font_styles p = Inl KeyError"
proof -
  have "bs \<noteq> []" using assms(2) by auto
  then show ?thesis
    using assms(1) page_spans_incomplete [OF assms(2)] by (simp add: determine_font_styles_def)
qed

lemma determine_font_styles_no_span:
  assumes "text_blocks p = Some bs" and "list_all complete_block bs"
  shows "determine_font_styles p = Inr (None, []) \<longleftrightarrow> text_span_list bs = []"
    and "text_span_list bs \<noteq> [] \<Longrightarrow> \<exists>b hl. determine_font_styles p = Inr (Some b, hl)"
proof -
  obtain sp where sp: "page_spans bs = Inr sp" "length sp = length (text_span_list bs)"
    using page_spans_complete [OF assms(2)] by blast
  show "determine_font_styles p = Inr (None, []) \<longleftrightarrow> text_span_list bs = []"
  proof (cases "sp = []")
    case True
    then have "text_span_list bs = []" using sp(2) by simp
    then show ?thesis
      using assms(1) sp(1) True by (simp add: determine_font_styles_def all_sizes_def)
  next
    case False
    then have "text_span_list bs \<noteq> []" using sp(2) by auto
    then show ?thesis
      using determine_font_styles_spans [OF assms(1) sp(1) False] by simp
  qed
  show "\<exists>b hl. determine_font_styles p = Inr (Some b, hl)" if "text_span_list bs \<noteq> []"
  proof -
    have "sp \<noteq> []" using that sp(2) by auto
    then show ?thesis using determine_font_styles_spans [OF assms(1) sp(1)] by blast
  qed
qed

lemma determine_font_styles_None_map:
  "determine_font_styles p = Inr (None, hl) \<Longrightarrow> hl = []"
  using determine_font_styles_cases [of p None hl] by simp

section \<open>Skipped pages (C5)\<close>

text \<open>
  C5, as stated, fails: line 48 tests whether the text blocks hold a span, not whether a
  span holds text. A page whose only span has the empty text has no span with text, yet
  \<open>determine_font_styles\<close> returns the body size 12 for it and the page gives its marker.
\<close>

theorem skipped_page_counterexample:
  "\<not> has_span_with_text ex_empty_blocks
   \<and> determine_font_styles ex_empty_page = Inr (Some 12, [])
   \<and> convert_fragments ascii_digit [ex_empty_page] = Inr [page_marker 0]"
proof -
  have t: "text_blocks ex_empty_page = Some ex_empty_blocks" by (simp add: ex_empty_page_def)
  have sp: "page_spans ex_empty_blocks = Inr [(12, False, [])]"
    by (simp add: page_spans_def ex_empty_blocks_def ex_text_block_def ex_span_def
        block_spans_def line_spans_def read_span_def py_round_numeral is_bold_def ascii_def)
  have sc: "size_counts [(12, False, [])] = [(12, 0)]"
    by (simp add: size_counts_def text_eval)
  have b: "select_body_size (size_counts [(12, False, [])]) (all_sizes [(12, False, [])]) = 12"
    by (simp add: sc select_body_size_def most_common1_def)
  have hl: "assign_levels 1 (heading_candidates (all_sizes [(12, False, [])]) 12) = []"
    by (simp add: all_sizes_def heading_candidates_def)
  have d: "determine_font_styles ex_empty_page = Inr (Some 12, [])"
    using determine_font_styles_spans [OF t sp] by (simp only: b hl) simp
  have "\<not> has_span_with_text ex_empty_blocks"
    by (simp add: has_span_with_text_def text_span_list_def ex_empty_blocks_def
        ex_text_block_def block_span_list_def block_line_list_def line_span_list_def
        span_chars_def ex_span_def ascii_def)
  moreover have "convert_fragments ascii_digit [ex_empty_page] = Inr [page_marker 0]"
    by (simp add: convert_fragments_def process_page_def d initial_state_def)
       (simp add: ex_empty_page_def ex_empty_blocks_def scan_eval block_eval Let_def
        list_item_eval text_eval)
  ultimately show ?thesis using d by simp
qed

text \<open>
  C5, amended. For a page that gives a list of blocks in which every key that
  \<open>determine_font_styles\<close> reads is there, \<open>determine_font_styles\<close> returns \<open>(None, {})\<close>
  exactly when the text blocks of the page hold no span at all (also when the list of
  blocks is empty or holds no text block), and it returns a body size otherwise; a span
  with an empty text is a span. A page for which it returns \<open>None\<close> leaves the state of
  the conversion as it is: no fragment, no page marker.
\<close>

theorem skipped_page_iff_no_span:
  assumes "text_blocks p = Some bs" and "list_all complete_block bs"
  shows "(determine_font_styles p = Inr (None, []) \<longleftrightarrow> text_span_list bs = [])
     \<and> (text_span_list bs \<noteq> [] \<longrightarrow> (\<exists>b hl. determine_font_styles p = Inr (Some b, hl)))
     \<and> (determine_font_styles p = Inr (None, hl) \<longrightarrow>
           hl = [] \<and> process_page dec n p st = Inr st)"
  using determine_font_styles_no_span [OF assms] determine_font_styles_None_map [of p hl]
    process_page_skipped [of p hl dec n st]
  by blast

theorem skipped_page_iff_no_span_witness:
  "text_blocks ex_image_page = Some [ex_image_block]
   \<and> list_all complete_block [ex_image_block] \<and> text_span_list [ex_image_block] = []
   \<and> determine_font_styles ex_image_page = Inr (None, [])
   \<and> process_page ascii_digit 0 ex_image_page initial_state = Inr initial_state"
proof -
  have t: "text_blocks ex_image_page = Some [ex_image_block]" by (simp add: ex_image_page_def)
  have c: "list_all complete_block [ex_image_block]"
    by (simp add: complete_block_def ex_image_block_def)
  have s: "text_span_list [ex_image_block] = []"
    by (simp add: text_span_list_def ex_image_block_def)
  note th = skipped_page_iff_no_span [OF t c, of "[]" ascii_digit 0 initial_state]
  have d: "determine_font_styles ex_image_page = Inr (None, [])"
    using th s by blast
  then have "process_page ascii_digit 0 ex_image_page initial_state = Inr initial_state"
    using th by blast
  then show ?thesis using t c s d by blast
qed

section \<open>A span without a key (C6)\<close>

text \<open>
  C6. The conversion loop reads the keys of a span with \<open>get\<close> and a default, but
  \<open>determine_font_styles\<close>, which runs first on the same page, reads them with a
  subscript. For a span without \<open>size\<close> it raises KeyError, which nothing catches: the
  conversion of the document ends there, with the fragments of the pages before it.
  The loop over the blocks, given the same block, puts its text into the paragraph.
\<close>

theorem malformed_span_aborts:
  "determine_font_styles ex_malformed_page = Inl KeyError
   \<and> convert_fragments ascii_digit [ex_gap_page, ex_malformed_page] = Inl KeyError
   \<and> process_block ascii_digit 0 10 [] 0 ex_malformed_block
        \<lparr>markdown_output = [page_marker 0], last_block_bottom = 0, current_paragraph = []\<rparr>
      = Inr \<lparr>markdown_output = [page_marker 0], last_block_bottom = 12,
             current_paragraph = ascii ''Hello''\<rparr>"
proof -
  have n: "\<not> list_all complete_block [ex_malformed_block]"
    by (simp add: complete_block_def complete_line_def complete_span_def ex_malformed_block_def)
  have d: "determine_font_styles ex_malformed_page = Inl KeyError"
    by (rule determine_font_styles_incomplete [OF _ n]) (simp add: ex_malformed_page_def)
  have "process_page ascii_digit 1 ex_malformed_page st = Inl KeyError" for st
    by (simp add: process_page_def d)
  then have c: "convert_fragments ascii_digit [ex_gap_page, ex_malformed_page] = Inl KeyError"
    by (simp add: convert_fragments_def ex_gap_page_result)
  have "process_block ascii_digit 0 10 [] 0 ex_malformed_block
        \<lparr>markdown_output = [page_marker 0], last_block_bottom = 0, current_paragraph = []\<rparr>
      = Inr \<lparr>markdown_output = [page_marker 0], last_block_bottom = 12,
             current_paragraph = ascii ''Hello''\<rparr>"
    by (simp add: ex_malformed_block_def scan_eval block_eval Let_def list_item_eval text_eval)
  then show ?thesis using d c by simp
qed

end
